theory Spec2Isabelle
  imports Main "HOL-Library.Char_ord" "HOL-Library.List_Lexorder" "HOL-Library.AList"
begin

section \<open>Data model (dawg/node.go, dawg/dawg.go)\<close>

text \<open>
  A Go \<^verbatim>\<open>string\<close> is a sequence of bytes and is compared bytewise; it is modelled as a
  \<^typ>\<open>char list\<close> (a \<^typ>\<open>char\<close> is one byte) under the lexicographic order.

  A \<^verbatim>\<open>*Node\<close> is represented by the \<^verbatim>\<open>ID\<close> of the node it points to:
  the embedded root has \<^verbatim>\<open>ID\<close> 0 and every node made by \<^verbatim>\<open>node()\<close>
  receives the next value of \<^verbatim>\<open>seq\<close>, so identities and node objects correspond
  one to one and \<^verbatim>\<open>c.ID\<close> is the pointer \<open>c\<close> itself.  The node objects live in an
  explicit store \<open>heap\<close> from identities to node contents.  Go's \<^verbatim>\<open>int\<close> is taken as
  \<^typ>\<open>nat\<close>: identities start at 0 and only grow by one per allocated node.

  The children map \<^verbatim>\<open>map[byte]*Node\<close> is an association list with unique keys; a
  \<^verbatim>\<open>nil\<close> map and an empty map are both the empty list (the source allocates the map
  before the first write).
\<close>

record Node =
  F :: bool
  C :: "(char \<times> nat) list"

record ArrayNode =
  Index :: nat
  B :: char
  AF :: bool
  EOL :: bool

text \<open>An entry of \<^verbatim>\<open>unchecked\<close> is the triple \<open>(p, c, b)\<close> of the source struct.\<close>

type_synonym unchecked_entry = "nat \<times> nat \<times> char"

record DAWG =
  heap :: "nat \<Rightarrow> Node"
  prevWord :: string
  seq :: nat
  "unchecked" :: "unchecked_entry list"
  minimized :: "string \<rightharpoonup> nat"

datatype error = OrderingViolation | KeySizeMismatch

definition empty_node :: Node where
  "empty_node = \<lparr>F = False, C = []\<rparr>"

text \<open>The zero value \<^verbatim>\<open>var d DAWG\<close>.\<close>

definition init :: DAWG where
  "init = \<lparr>heap = (\<lambda>_. empty_node), prevWord = [], seq = 0, unchecked = [], minimized = Map.empty\<rparr>"

section \<open>Signatures (node.go)\<close>

function numDigits_loop :: "nat \<Rightarrow> nat \<Rightarrow> nat" where
  "numDigits_loop num n = (if n > 9 then numDigits_loop (num + 1) (n div 10) else num)"
  by pat_completeness auto
termination
  by (relation "measure snd") auto

definition numDigits :: "nat \<Rightarrow> nat" where
  "numDigits n = numDigits_loop 1 n"

definition sortedKeys :: "(char \<times> nat) list \<Rightarrow> char list" where
  "sortedKeys m = sort (map fst m)"

text \<open>\<^verbatim>\<open>strconv.AppendInt(buf, n, 10)\<close> for a non-negative \<open>n\<close>: the decimal digits.\<close>

definition digit :: "nat \<Rightarrow> char" where
  "digit k = ''0123456789'' ! k"

function decimal :: "nat \<Rightarrow> string" where
  "decimal n = (if n < 10 then [digit n] else decimal (n div 10) @ [digit (n mod 10)])"
  by pat_completeness auto
termination
  by (relation "measure id") auto

definition key_size :: "Node \<Rightarrow> nat" where
  "key_size n = 2 + sum_list (map (\<lambda>(b, c). numDigits c + 1) (C n)) + length (C n)"

definition key_buf :: "Node \<Rightarrow> string" where
  "key_buf n = (let keys = sortedKeys (C n) in
     [if F n then CHR ''1'' else CHR ''0'', CHR ''_''] @ keys @
     concat (map (\<lambda>b. CHR ''_'' # decimal (the (map_of (C n) b))) keys))"

definition key :: "Node \<Rightarrow> error + string" where
  "key n = (let buf = key_buf n in
     if length buf \<noteq> key_size n then Inl KeySizeMismatch else Inr buf)"

section \<open>The incremental builder (dawg.go)\<close>

definition node :: "DAWG \<Rightarrow> nat \<times> DAWG" where
  "node d = (let s = seq d + 1 in (s, d\<lparr>seq := s, heap := (heap d)(s := empty_node)\<rparr>))"

definition set_child :: "nat \<Rightarrow> char \<Rightarrow> nat \<Rightarrow> DAWG \<Rightarrow> DAWG" where
  "set_child p b c d = d\<lparr>heap := (heap d)(p := (heap d p)\<lparr>C := AList.update b c (C (heap d p))\<rparr>)\<rparr>"

definition minimize_step :: "unchecked_entry \<Rightarrow> DAWG \<Rightarrow> error + DAWG" where
  "minimize_step n d = (case n of (p, c, b) \<Rightarrow>
     (case key (heap d c) of
        Inl e \<Rightarrow> Inl e
      | Inr k \<Rightarrow>
        (case minimized d k of
           Some m \<Rightarrow> Inr (set_child p b m d)
         | None \<Rightarrow> Inr (d\<lparr>minimized := (minimized d)(k \<mapsto> c)\<rparr>))))"

fun minimize_loop :: "unchecked_entry list \<Rightarrow> DAWG \<Rightarrow> error + DAWG" where
  "minimize_loop [] d = Inr d"
| "minimize_loop (n # ns) d =
     (case minimize_step n d of Inl e \<Rightarrow> Inl e | Inr d' \<Rightarrow> minimize_loop ns d')"

text \<open>
  The loop runs over \<^verbatim>\<open>unchecked[len-1]\<close> down to \<^verbatim>\<open>unchecked[to]\<close>, then the slice is
  cut to \<^verbatim>\<open>unchecked[:to]\<close>.
\<close>

definition minimize :: "nat \<Rightarrow> DAWG \<Rightarrow> error + DAWG" where
  "minimize to d = (case minimize_loop (rev (drop to (unchecked d))) d of
     Inl e \<Rightarrow> Inl e
   | Inr d' \<Rightarrow> Inr (d'\<lparr>unchecked := take to (unchecked d')\<rparr>))"

fun lcpLength :: "string \<Rightarrow> string \<Rightarrow> nat" where
  "lcpLength (x # xs) (y # ys) = (if x \<noteq> y then 0 else 1 + lcpLength xs ys)"
| "lcpLength _ _ = 0"

text \<open>One round of the loop \<^verbatim>\<open>for i := lcpLen; i < len(word); i++\<close> and the loop itself.\<close>

definition insert_step :: "char \<Rightarrow> nat \<Rightarrow> DAWG \<Rightarrow> nat \<times> DAWG" where
  "insert_step b cur d =
     (case node d of (next, d1) \<Rightarrow>
        (next, (set_child cur b next d1)\<lparr>unchecked := unchecked d1 @ [(cur, next, b)]\<rparr>))"

fun insert_loop :: "string \<Rightarrow> nat \<Rightarrow> DAWG \<Rightarrow> nat \<times> DAWG" where
  "insert_loop [] cur d = (cur, d)"
| "insert_loop (b # bs) cur d =
     (case insert_step b cur d of (next, d') \<Rightarrow> insert_loop bs next d')"

definition set_final :: "nat \<Rightarrow> DAWG \<Rightarrow> DAWG" where
  "set_final n d = d\<lparr>heap := (heap d)(n := (heap d n)\<lparr>F := True\<rparr>)\<rparr>"

definition Insert :: "string \<Rightarrow> DAWG \<Rightarrow> error + DAWG" where
  "Insert word d =
     (if word \<le> prevWord d then Inl OrderingViolation
      else let lcpLen = lcpLength word (prevWord d) in
        (case minimize lcpLen d of
           Inl e \<Rightarrow> Inl e
         | Inr d1 \<Rightarrow>
           let d2 = d1\<lparr>prevWord := word\<rparr>;
               cur = (if length (unchecked d2) > 0
                       then fst (snd (last (unchecked d2))) else 0)
           in (case insert_loop (drop lcpLen word) cur d2 of
                 (cur', d3) \<Rightarrow> Inr (set_final cur' d3))))"

definition Finish :: "DAWG \<Rightarrow> error + DAWG" where
  "Finish d = minimize 0 d"

fun inserts :: "string list \<Rightarrow> DAWG \<Rightarrow> error + DAWG" where
  "inserts [] d = Inr d"
| "inserts (w # ws) d = (case Insert w d of Inl e \<Rightarrow> Inl e | Inr d' \<Rightarrow> inserts ws d')"

text \<open>The use the source prescribes: the words one after the other, then \<^verbatim>\<open>Finish\<close>.\<close>

definition build :: "string list \<Rightarrow> error + DAWG" where
  "build ws = (case inserts ws init of Inl e \<Rightarrow> Inl e | Inr d \<Rightarrow> Finish d)"

section \<open>Queries (dawg.go)\<close>

fun walk :: "(nat \<Rightarrow> Node) \<Rightarrow> nat \<Rightarrow> string \<Rightarrow> nat option" where
  "walk h cur [] = Some cur"
| "walk h cur (b # bs) =
     (case map_of (C (h cur)) b of None \<Rightarrow> None | Some c \<Rightarrow> walk h c bs)"

definition Lookup :: "DAWG \<Rightarrow> string \<Rightarrow> bool" where
  "Lookup d word = (case walk (heap d) 0 word of None \<Rightarrow> False | Some n \<Rightarrow> F (heap d n))"

text \<open>
  \<^verbatim>\<open>for b, next := range curr.C { ...; break }\<close> takes the entry the runtime yields first;
  Go leaves the iteration order of a map open, so the position of that entry is the
  parameter \<open>pick\<close>.  With no entry the body of \<^verbatim>\<open>for !curr.F\<close> changes nothing and the
  loop goes round again.  The loop may run forever: not returning is the value \<open>None\<close>.
\<close>

partial_function (option) complete ::
  "((char \<times> nat) list \<Rightarrow> nat) \<Rightarrow> (nat \<Rightarrow> Node) \<Rightarrow> nat \<Rightarrow> string \<Rightarrow> string option" where
  "complete pick h cur buf =
     (if F (h cur) then Some buf
      else (case C (h cur) of
              [] \<Rightarrow> complete pick h cur buf
            | e # es \<Rightarrow>
              (case (e # es) ! (pick (e # es) mod length (e # es)) of
                 (b, next) \<Rightarrow> complete pick h next (buf @ [b]))))"

declare complete.simps [code]

definition LookupPrefix ::
  "((char \<times> nat) list \<Rightarrow> nat) \<Rightarrow> DAWG \<Rightarrow> string \<Rightarrow> (string \<times> bool) option" where
  "LookupPrefix pick d prefix =
     (case walk (heap d) 0 prefix of
        None \<Rightarrow> Some ([], False)
      | Some cur \<Rightarrow> map_option (\<lambda>buf. (buf, True)) (complete pick (heap d) cur []))"

section \<open>The exporter (dawg.go)\<close>

text \<open>
  The local variables of \<^verbatim>\<open>Flatten\<close>.  Reading an absent key of \<^verbatim>\<open>seen\<close> or
  \<^verbatim>\<open>indexes\<close> gives \<^verbatim>\<open>false\<close> or 0, so both are total functions.
\<close>

record flat =
  result :: "ArrayNode list"
  to :: "nat list"
  hasChildren :: "bool list"
  seen :: "nat \<Rightarrow> bool"
  indexes :: "nat \<Rightarrow> nat"
  index :: nat
  nodes :: "nat list"

text \<open>One round of the inner loop: \<open>j\<close> is the position of the label \<open>b\<close> among the \<open>nkeys\<close>
  sorted labels of the node \<open>nd\<close>.\<close>

definition visit_edge :: "(nat \<Rightarrow> Node) \<Rightarrow> nat \<Rightarrow> nat \<Rightarrow> nat \<times> char \<Rightarrow> flat \<Rightarrow> flat" where
  "visit_edge h nd nkeys jb s = (case jb of (j, b) \<Rightarrow>
     let c = the (map_of (C (h nd)) b);
         s1 = (if \<not> seen s c then s\<lparr>nodes := nodes s @ [c], seen := (seen s)(c := True)\<rparr> else s)
     in s1\<lparr>to := to s1 @ [c],
           hasChildren := hasChildren s1 @ [length (C (h c)) > 0],
           result := result s1 @ [\<lparr>Index = 0, B = b, AF = F (h c), EOL = (j = nkeys - 1)\<rparr>],
           index := index s1 + 1\<rparr>)"

definition visit :: "(nat \<Rightarrow> Node) \<Rightarrow> nat \<Rightarrow> flat \<Rightarrow> flat" where
  "visit h nd s = (let keys = sortedKeys (C (h nd)) in
     fold (visit_edge h nd (length keys)) (enumerate 0 keys)
       (s\<lparr>indexes := (indexes s)(nd := index s)\<rparr>))"

partial_function (option) flatten_loop :: "(nat \<Rightarrow> Node) \<Rightarrow> nat \<Rightarrow> flat \<Rightarrow> flat option" where
  "flatten_loop h i s =
     (if i < length (nodes s) then flatten_loop h (i + 1) (visit h (nodes s ! i) s)
      else Some s)"

declare flatten_loop.simps [code]

definition fixup :: "flat \<Rightarrow> ArrayNode list" where
  "fixup s = map (\<lambda>i. if hasChildren s ! i then (result s ! i)\<lparr>Index := indexes s (to s ! i)\<rparr>
                       else result s ! i) [0..<length (result s)]"

definition flat_init :: flat where
  "flat_init = \<lparr>result = [], to = [], hasChildren = [], seen = (\<lambda>_. False),
     indexes = (\<lambda>_. 0), index = 0, nodes = [0]\<rparr>"

definition Flatten :: "DAWG \<Rightarrow> ArrayNode list option" where
  "Flatten d = map_option fixup (flatten_loop (heap d) 0 flat_init)"

text \<open>The part of a signature after the labels: one group \<open>_<id>\<close> for each label.\<close>

definition groups :: "(char \<Rightarrow> nat) \<Rightarrow> char list \<Rightarrow> string" where
  "groups f ks = concat (map (\<lambda>b. CHR ''_'' # decimal (f b)) ks)"

text \<open>Acceptance from a node: what \<^verbatim>\<open>Lookup\<close> computes, started at any node.\<close>

definition accept :: "(nat \<Rightarrow> Node) \<Rightarrow> nat \<Rightarrow> string \<Rightarrow> bool" where
  "accept h n w = (case walk h n w of None \<Rightarrow> False | Some m \<Rightarrow> F (h m))"

text \<open>The nodes on the chain of not yet minimized entries: the root, then each entry's child.\<close>

definition chain_nodes :: "unchecked_entry list \<Rightarrow> nat list" where
  "chain_nodes es = 0 # map (\<lambda>e. fst (snd e)) es"

definition chain_distinct :: "nat set \<Rightarrow> unchecked_entry list \<Rightarrow> bool" where
  "chain_distinct R es = (distinct (chain_nodes es) \<and> set (chain_nodes es) \<inter> R = {})"

definition chain_path :: "(nat \<Rightarrow> Node) \<Rightarrow> nat set \<Rightarrow> unchecked_entry list \<Rightarrow> bool" where
  "chain_path h R es = (\<forall>j < length es. case es ! j of (p, c, b) \<Rightarrow>
     p = chain_nodes es ! j \<and> map_of (C (h p)) b = Some c \<and>
     (\<forall>(b', c') \<in> set (C (h p)). b' = b \<or> c' \<in> R))"

definition others_closed :: "(nat \<Rightarrow> Node) \<Rightarrow> nat set \<Rightarrow> unchecked_entry list \<Rightarrow> bool" where
  "others_closed h R es = (\<forall>n. (n \<in> set (chain_nodes es) \<longrightarrow> n = last (chain_nodes es)) \<longrightarrow>
     (\<forall>(b, c) \<in> set (C (h n)). c \<in> R))"

definition registry_keys :: "(nat \<Rightarrow> Node) \<Rightarrow> (string \<rightharpoonup> nat) \<Rightarrow> bool" where
  "registry_keys h M = (\<forall>k m. M k = Some m \<longrightarrow> key_buf (h m) = k)"

definition registry_ranked :: "(nat \<Rightarrow> Node) \<Rightarrow> nat set \<Rightarrow> bool" where
  "registry_ranked h R = (\<exists>r :: nat \<Rightarrow> nat. \<forall>m \<in> R. \<forall>(b, c) \<in> set (C (h m)). r c < r m)"

definition labels_distinct :: "(nat \<Rightarrow> Node) \<Rightarrow> bool" where
  "labels_distinct h = (\<forall>n. distinct (map fst (C (h n))))"

definition bounded :: "nat \<Rightarrow> nat set \<Rightarrow> unchecked_entry list \<Rightarrow> bool" where
  "bounded s R es = (\<forall>n \<in> set (chain_nodes es) \<union> R. n \<le> s)"

text \<open>The structural invariant of the builder, for a chain \<open>es\<close> of entries still to be minimized.\<close>

definition struct_inv :: "DAWG \<Rightarrow> unchecked_entry list \<Rightarrow> bool" where
  "struct_inv d es =
     (chain_distinct (ran (minimized d)) es \<and>
      chain_path (heap d) (ran (minimized d)) es \<and>
      others_closed (heap d) (ran (minimized d)) es \<and>
      registry_keys (heap d) (minimized d) \<and>
      registry_ranked (heap d) (ran (minimized d)) \<and>
      labels_distinct (heap d) \<and>
      bounded (seq d) (ran (minimized d)) es \<and>
      \<not> F (heap d 0))"

text \<open>What a minimize step leaves alone: the counters, the labels of every node and the words
  accepted from every node.\<close>

definition same_words :: "DAWG \<Rightarrow> DAWG \<Rightarrow> bool" where
  "same_words d d' =
     (seq d' = seq d \<and> prevWord d' = prevWord d \<and> unchecked d' = unchecked d \<and>
      (\<forall>n. map fst (C (heap d' n)) = map fst (C (heap d n))) \<and>
      (\<forall>n w. accept (heap d') n w = accept (heap d) n w))"

text \<open>The labels leaving a node on the chain do not exceed the label of its chain entry.\<close>

definition label_bound :: "(nat \<Rightarrow> Node) \<Rightarrow> unchecked_entry list \<Rightarrow> bool" where
  "label_bound h es = (\<forall>(p, c, b) \<in> set es. \<forall>(b', c') \<in> set (C (h p)). b' \<le> b)"

text \<open>The labels along the chain.\<close>

definition chain_labels :: "unchecked_entry list \<Rightarrow> string" where
  "chain_labels es = map (\<lambda>e. snd (snd e)) es"

text \<open>The invariant between two calls of \<^verbatim>\<open>Insert\<close>, for the set \<open>W\<close> of words inserted so far.\<close>

definition dawg_inv :: "string set \<Rightarrow> DAWG \<Rightarrow> bool" where
  "dawg_inv W d =
     (struct_inv d (unchecked d) \<and>
      label_bound (heap d) (unchecked d) \<and>
      chain_labels (unchecked d) = prevWord d \<and>
      C (heap d (last (chain_nodes (unchecked d)))) = [] \<and>
      (\<forall>w. accept (heap d) 0 w = (w \<in> W)))"

text \<open>The states of a builder that has only received successful calls of \<^verbatim>\<open>Insert\<close>, and the
  states after \<^verbatim>\<open>Finish\<close> has then been called.\<close>

inductive building :: "DAWG \<Rightarrow> bool" where
  building_init: "building init"
| building_Insert: "building d \<Longrightarrow> Insert w d = Inr d' \<Longrightarrow> building d'"

definition finished :: "DAWG \<Rightarrow> bool" where
  "finished d' = (\<exists>d. building d \<and> Finish d = Inr d')"

text \<open>The edges of the graph, as pairs of a node and one of its children.\<close>

definition edges :: "(nat \<Rightarrow> Node) \<Rightarrow> (nat \<times> nat) set" where
  "edges h = {(n, c). c \<in> snd ` set (C (h n))}"

text \<open>The nodes reachable from the root.\<close>

definition reachable :: "DAWG \<Rightarrow> nat set" where
  "reachable d = {n. \<exists>w. walk (heap d) 0 w = Some n}"

text \<open>The flattened array stated from the claim: the children of a node in ascending label order,
  the breadth-first queue that starts with the root and receives the children of each visited
  node that it does not hold yet, the position of a node's first entry, and the entries of a
  node.\<close>

definition kids :: "(nat \<Rightarrow> Node) \<Rightarrow> nat \<Rightarrow> nat list" where
  "kids h n = map (\<lambda>b. the (map_of (C (h n)) b)) (sortedKeys (C (h n)))"

definition discover :: "nat list \<Rightarrow> nat list \<Rightarrow> nat list" where
  "discover q cs = fold (\<lambda>c q. if c \<in> set q then q else q @ [c]) cs q"

fun bfs_queue :: "(nat \<Rightarrow> Node) \<Rightarrow> nat \<Rightarrow> nat list" where
  "bfs_queue h 0 = [0]"
| "bfs_queue h (Suc i) =
     (let q = bfs_queue h i in if i < length q then discover q (kids h (q ! i)) else q)"

definition offset :: "(nat \<Rightarrow> Node) \<Rightarrow> nat list \<Rightarrow> nat \<Rightarrow> nat" where
  "offset h order n = sum_list (map (\<lambda>m. length (C (h m))) (takeWhile (\<lambda>m. m \<noteq> n) order))"

definition entry :: "(nat \<Rightarrow> Node) \<Rightarrow> nat list \<Rightarrow> nat \<Rightarrow> nat \<times> char \<Rightarrow> ArrayNode" where
  "entry h order n jb = (case jb of (j, b) \<Rightarrow>
     let c = the (map_of (C (h n)) b) in
       \<lparr>Index = (if C (h c) \<noteq> [] then offset h order c else 0), B = b, AF = F (h c),
        EOL = (j = length (C (h n)) - 1)\<rparr>)"

definition entries :: "(nat \<Rightarrow> Node) \<Rightarrow> nat list \<Rightarrow> nat \<Rightarrow> ArrayNode list" where
  "entries h order n = map (entry h order n) (enumerate 0 (sortedKeys (C (h n))))"

definition flat_spec :: "(nat \<Rightarrow> Node) \<Rightarrow> nat list \<Rightarrow> ArrayNode list" where
  "flat_spec h order = concat (map (entries h order) order)"

text \<open>The entry the first loop of \<^verbatim>\<open>Flatten\<close> appends for the label at position \<open>j\<close> of a node.\<close>

definition raw_entry :: "(nat \<Rightarrow> Node) \<Rightarrow> nat \<Rightarrow> nat \<times> char \<Rightarrow> ArrayNode" where
  "raw_entry h n jb = (case jb of (j, b) \<Rightarrow>
     \<lparr>Index = 0, B = b, AF = F (h (the (map_of (C (h n)) b))),
      EOL = (j = length (sortedKeys (C (h n))) - 1)\<rparr>)"

text \<open>The map \<^verbatim>\<open>seen\<close> holds the nodes of the queue other than the root.\<close>

definition seen_inv :: "flat \<Rightarrow> bool" where
  "seen_inv s = (\<forall>c. c \<noteq> 0 \<longrightarrow> seen s c = (c \<in> set (nodes s)))"

text \<open>The root is not the child of any node, and every child is at most \<open>sq\<close>.\<close>

definition graph_ok :: "(nat \<Rightarrow> Node) \<Rightarrow> nat \<Rightarrow> bool" where
  "graph_ok h sq = (\<forall>n b c. (b, c) \<in> set (C (h n)) \<longrightarrow> c \<noteq> 0 \<and> c \<le> sq)"

text \<open>The entries of a node as the first loop emits them, and the invariant of that loop before
  the round for position \<open>i\<close> of the queue.\<close>

definition raw_entries :: "(nat \<Rightarrow> Node) \<Rightarrow> nat \<Rightarrow> ArrayNode list" where
  "raw_entries h n = map (raw_entry h n) (enumerate 0 (sortedKeys (C (h n))))"

definition flat_inv :: "(nat \<Rightarrow> Node) \<Rightarrow> nat \<Rightarrow> flat \<Rightarrow> bool" where
  "flat_inv h i s =
     (nodes s = bfs_queue h i \<and> i \<le> length (nodes s) \<and> seen_inv s \<and>
      to s = concat (map (kids h) (take i (nodes s))) \<and>
      hasChildren s = map (\<lambda>c. C (h c) \<noteq> []) (to s) \<and>
      result s = concat (map (raw_entries h) (take i (nodes s))) \<and>
      index s = length (to s) \<and>
      (\<forall>k < i. indexes s (nodes s ! k) = length (concat (map (kids h) (take k (nodes s))))))"

(*DEFS-END*)

section \<open>The ordering check of \<^verbatim>\<open>Insert\<close>\<close>

lemma key_not_ordering: "key n \<noteq> Inl OrderingViolation"
  by (simp add: key_def Let_def)

lemma minimize_step_not_ordering: "minimize_step n d \<noteq> Inl OrderingViolation"
  using key_not_ordering [of "heap d (fst (snd n))"]
  by (auto simp: minimize_step_def split: prod.splits sum.splits option.splits error.splits)

lemma minimize_loop_not_ordering: "minimize_loop ns d \<noteq> Inl OrderingViolation"
proof (induction ns arbitrary: d)
  case Nil
  show ?case by simp
next
  case (Cons n ns)
  show ?case
    using minimize_step_not_ordering [of n d] Cons.IH
    by (auto split: sum.splits)
qed

lemma minimize_not_ordering: "minimize k d \<noteq> Inl OrderingViolation"
  using minimize_loop_not_ordering [of "rev (drop k (unchecked d))" d]
  by (auto simp: minimize_def split: sum.splits)

lemma prevWord_set_child [simp]: "prevWord (set_child p b c d) = prevWord d"
  by (simp add: set_child_def)

lemma prevWord_set_final [simp]: "prevWord (set_final n d) = prevWord d"
  by (simp add: set_final_def)

lemma prevWord_insert_loop: "insert_loop bs cur d = (cur', d') \<Longrightarrow> prevWord d' = prevWord d"
  by (induction bs cur d rule: insert_loop.induct)
    (auto simp: insert_step_def node_def Let_def split: prod.splits)

text \<open>
  Claim C5.  \<^verbatim>\<open>Insert(word)\<close> panics with the ordering violation if and only if \<open>word\<close> is
  not strictly greater than the previously inserted word, which the builder keeps in
  \<^verbatim>\<open>prevWord\<close>: a successful \<^verbatim>\<open>Insert(word)\<close> leaves \<open>word\<close> there.
\<close>

theorem Insert_ordering_violation:
  "(Insert word d = Inl OrderingViolation) = (word \<le> prevWord d) \<and>
   (\<forall>d'. Insert word d = Inr d' \<longrightarrow> prevWord d' = word)"
  using minimize_not_ordering [of "lcpLength word (prevWord d)" d]
  by (auto simp: Insert_def Let_def dest: prevWord_insert_loop split: sum.splits prod.splits)

text \<open>Inserting "b" succeeds; then "a" and again "b" are refused, and "c" is not.\<close>

theorem Insert_ordering_violation_witness:
  "\<exists>d'. Insert ''b'' init = Inr d' \<and> prevWord d' = ''b'' \<and>
     Insert ''a'' d' = Inl OrderingViolation \<and> Insert ''b'' d' = Inl OrderingViolation \<and>
     Insert ''c'' d' \<noteq> Inl OrderingViolation"
proof -
  obtain d' where d': "Insert ''b'' init = Inr d'"
    by (auto simp add: Insert_def init_def minimize_def insert_step_def node_def set_child_def
        set_final_def Let_def)
  have pw: "prevWord d' = ''b''"
    using Insert_ordering_violation [of "''b''" init] d' by simp
  show ?thesis
    using d' pw Insert_ordering_violation [of "''a''" d'] Insert_ordering_violation [of "''b''" d']
      Insert_ordering_violation [of "''c''" d']
    by simp
qed

section \<open>The completion loop of \<^verbatim>\<open>LookupPrefix\<close>\<close>

lemma complete_stuck_aux:
  assumes "complete pick h cur buf = Some y"
  shows "F (h cur) \<or> C (h cur) \<noteq> []"
  using assms
proof (rule complete.raw_induct [rotated 1,
      where P = "\<lambda>pick h cur buf y. F (h cur) \<or> C (h cur) \<noteq> []"])
  fix f :: "((char \<times> nat) list \<Rightarrow> nat) \<Rightarrow> (nat \<Rightarrow> Node) \<Rightarrow> nat \<Rightarrow> string \<Rightarrow> string option"
    and pick' h' cur' buf' y'
  assume IH: "\<And>pick h cur buf y. f pick h cur buf = Some y \<Longrightarrow> F (h cur) \<or> C (h cur) \<noteq> []"
    and step: "(if F (h' cur') then Some buf'
      else case C (h' cur') of [] \<Rightarrow> f pick' h' cur' buf'
           | e # es \<Rightarrow>
               case (e # es) ! (pick' (e # es) mod length (e # es)) of
               (b, next) \<Rightarrow> f pick' h' next (buf' @ [b])) = Some y'"
  show "F (h' cur') \<or> C (h' cur') \<noteq> []"
  proof (rule ccontr)
    assume "\<not> (F (h' cur') \<or> C (h' cur') \<noteq> [])"
    then have nf: "\<not> F (h' cur')" and ne: "C (h' cur') = []" by auto
    from step nf ne have "f pick' h' cur' buf' = Some y'" by simp
    from IH [OF this] nf ne show False by simp
  qed
qed

lemma complete_stuck: "\<not> F (h cur) \<Longrightarrow> C (h cur) = [] \<Longrightarrow> complete pick h cur buf = None"
  using complete_stuck_aux [of pick h cur buf] by (cases "complete pick h cur buf") auto

text \<open>
  Claim C4 at its failing input.  On the automaton with no insertions, before and after
  \<^verbatim>\<open>Finish\<close>, \<^verbatim>\<open>LookupPrefix("")\<close> does not return, whichever entry the runtime would
  pick: the root is not terminal and has no outgoing edge, so the completion loop spins.
\<close>

theorem LookupPrefix_empty_diverges:
  "LookupPrefix pick init [] = None \<and>
   (case build [] of Inl e \<Rightarrow> False | Inr d \<Rightarrow> LookupPrefix pick d [] = None)"
  by (simp add: LookupPrefix_def build_def Finish_def minimize_def init_def empty_node_def
      complete_stuck)

text \<open>
  Claim C3 at its failing input.  After inserting "a", "are", "as", "at" and finishing,
  \<^verbatim>\<open>LookupPrefix("a")\<close> returns the empty string with \<^verbatim>\<open>true\<close>, whichever entry the
  runtime would pick: the buffer starts empty after the prefix has been followed, so only
  the bytes after the prefix are returned, and the empty string is not an inserted word.
\<close>

theorem LookupPrefix_returns_suffix:
  "\<forall>pick. (case build [''a'', ''are'', ''as'', ''at''] of
      Inl e \<Rightarrow> False
    | Inr d \<Rightarrow> LookupPrefix pick d ''a'' = Some ([], True) \<and>
        [] \<notin> set [''a'', ''are'', ''as'', ''at''])"
proof
  fix pick
  show "(case build [''a'', ''are'', ''as'', ''at''] of
      Inl e \<Rightarrow> False
    | Inr d \<Rightarrow> LookupPrefix pick d ''a'' = Some ([], True) \<and>
        [] \<notin> set [''a'', ''are'', ''as'', ''at''])"
    by code_simp
qed

section \<open>Signatures are injective\<close>

declare decimal.simps [simp del]

lemma decimal_length_pos: "0 < length (decimal n)"
  by (subst decimal.simps) simp

lemma numDigits_loop_decimal: "numDigits_loop k n + 1 = k + length (decimal n)"
proof (induction k n rule: numDigits_loop.induct)
  case (1 num n)
  show ?case
  proof (cases "n > 9")
    case True
    then show ?thesis
      using 1 by (subst numDigits_loop.simps, subst decimal.simps) simp
  next
    case False
    then show ?thesis
      by (subst numDigits_loop.simps, subst decimal.simps) simp
  qed
qed

lemma numDigits_decimal: "numDigits n = length (decimal n)"
  using numDigits_loop_decimal [of 1 n] by (simp add: numDigits_def)

lemma digit_inj: "i < 10 \<Longrightarrow> j < 10 \<Longrightarrow> digit i = digit j \<Longrightarrow> i = j"
  unfolding digit_def
  by (subst (asm) nth_eq_iff_index_eq) simp_all

lemma digit_not_underscore: "i < 10 \<Longrightarrow> digit i \<noteq> CHR ''_''"
proof -
  assume "i < 10"
  then have "digit i \<in> set ''0123456789''" unfolding digit_def by (intro nth_mem) simp
  then show ?thesis by auto
qed

lemma decimal_no_underscore: "CHR ''_'' \<notin> set (decimal n)"
proof (induction n rule: decimal.induct)
  case (1 n)
  show ?case
  proof (cases "n < 10")
    case True
    then show ?thesis using digit_not_underscore [of n] by (subst decimal.simps) auto
  next
    case False
    then show ?thesis
      using 1 digit_not_underscore [of "n mod 10"] by (subst decimal.simps) auto
  qed
qed

lemma decimal_inj: "decimal n = decimal m \<Longrightarrow> n = m"
proof (induction n arbitrary: m rule: decimal.induct)
  case (1 n)
  show ?case
  proof (cases "n < 10")
    case True
    show ?thesis
    proof (cases "m < 10")
      case mt: True
      from 1(2) True mt have "digit n = digit m"
        by (subst (asm) decimal.simps, subst (asm) (2) decimal.simps) simp
      then show ?thesis using True mt digit_inj by blast
    next
      case mf: False
      from 1(2) True mf have "[digit n] = decimal (m div 10) @ [digit (m mod 10)]"
        by (subst (asm) decimal.simps, subst (asm) (2) decimal.simps) simp
      then have "decimal (m div 10) = []" by simp
      then show ?thesis using decimal_length_pos [of "m div 10"] by simp
    qed
  next
    case False
    show ?thesis
    proof (cases "m < 10")
      case mt: True
      from 1(2) False mt have "decimal (n div 10) @ [digit (n mod 10)] = [digit m]"
        by (subst (asm) decimal.simps, subst (asm) (2) decimal.simps) simp
      then have "decimal (n div 10) = []" by simp
      then show ?thesis using decimal_length_pos [of "n div 10"] by simp
    next
      case mf: False
      from 1(2) False mf
      have "decimal (n div 10) @ [digit (n mod 10)] = decimal (m div 10) @ [digit (m mod 10)]"
        by (subst (asm) decimal.simps, subst (asm) (2) decimal.simps) simp
      then have a: "decimal (n div 10) = decimal (m div 10)"
        and b: "digit (n mod 10) = digit (m mod 10)" by simp_all
      from 1(1) [OF False a] have "n div 10 = m div 10" .
      moreover from b have "n mod 10 = m mod 10" by (intro digit_inj) simp_all
      ultimately show ?thesis by (metis div_mult_mod_eq)
    qed
  qed
qed

lemma groups_simps [simp]:
  "groups f [] = []"
  "groups f (k # ks) = CHR ''_'' # decimal (f k) @ groups f ks"
  by (simp_all add: groups_def)

lemma groups_count: "length (filter ((=) CHR ''_'') (groups f ks)) = length ks"
proof (induction ks)
  case Nil
  show ?case by simp
next
  case (Cons k ks)
  have "filter ((=) CHR ''_'') (decimal (f k)) = []"
    using decimal_no_underscore [of "f k"] by (auto simp: filter_empty_conv)
  then show ?case using Cons by simp
qed

lemma groups_head: "groups f ks = [] \<or> hd (groups f ks) = CHR ''_''"
  by (cases ks) simp_all

lemma digits_then_underscore:
  assumes "xs @ r1 = ys @ r2"
    and "CHR ''_'' \<notin> set xs" "CHR ''_'' \<notin> set ys"
    and "r1 = [] \<or> hd r1 = CHR ''_''" "r2 = [] \<or> hd r2 = CHR ''_''"
  shows "xs = ys \<and> r1 = r2"
proof -
  have t1: "takeWhile (\<lambda>c. c \<noteq> CHR ''_'') (xs @ r1) = xs"
    using assms(2,4) by (cases r1) (auto simp: takeWhile_append)
  have t2: "takeWhile (\<lambda>c. c \<noteq> CHR ''_'') (ys @ r2) = ys"
    using assms(3,5) by (cases r2) (auto simp: takeWhile_append)
  from t1 t2 assms(1) have "xs = ys" by simp
  with assms(1) show ?thesis by simp
qed

lemma groups_inj: "groups f ks = groups g ks \<Longrightarrow> \<forall>b \<in> set ks. f b = g b"
proof (induction ks)
  case Nil
  show ?case by simp
next
  case (Cons k ks)
  from Cons.prems have "decimal (f k) @ groups f ks = decimal (g k) @ groups g ks" by simp
  from digits_then_underscore [OF this decimal_no_underscore decimal_no_underscore
      groups_head groups_head]
  have "decimal (f k) = decimal (g k)" and "groups f ks = groups g ks" by simp_all
  then show ?case using Cons.IH decimal_inj by auto
qed

lemma groups_cong: "\<forall>b \<in> set ks. f b = g b \<Longrightarrow> groups f ks = groups g ks"
  by (induction ks) simp_all

lemma keys_groups_inj:
  assumes "ks1 @ groups f ks1 = ks2 @ groups g ks2"
  shows "ks1 = ks2"
proof -
  from assms obtain us where
    "(ks1 = ks2 @ us \<and> us @ groups f ks1 = groups g ks2) \<or>
     (ks1 @ us = ks2 \<and> groups f ks1 = us @ groups g ks2)"
    by (auto simp: append_eq_append_conv2)
  then show ?thesis
  proof
    assume a: "ks1 = ks2 @ us \<and> us @ groups f ks1 = groups g ks2"
    then have "us @ groups f ks1 = groups g ks2" ..
    then have "length (filter ((=) CHR ''_'') (us @ groups f ks1)) = length ks2"
      using groups_count [of g ks2] by (simp only:)
    then have "length (filter ((=) CHR ''_'') us) + length ks1 = length ks2"
      using groups_count [of f ks1] by (simp only: filter_append length_append)
    with a show ?thesis by simp
  next
    assume a: "ks1 @ us = ks2 \<and> groups f ks1 = us @ groups g ks2"
    then have "groups f ks1 = us @ groups g ks2" ..
    then have "length (filter ((=) CHR ''_'') (us @ groups g ks2)) = length ks1"
      using groups_count [of f ks1] by (simp only:)
    then have "length (filter ((=) CHR ''_'') us) + length ks2 = length ks1"
      using groups_count [of g ks2] by (simp only: filter_append length_append)
    with a show ?thesis by auto
  qed
qed

lemma key_buf_groups:
  "key_buf n = (if F n then CHR ''1'' else CHR ''0'') # CHR ''_'' #
     sortedKeys (C n) @ groups (\<lambda>b. the (map_of (C n) b)) (sortedKeys (C n))"
  by (simp add: key_buf_def groups_def Let_def)

lemma length_groups: "length (groups f ks) = sum_list (map (\<lambda>b. length (decimal (f b)) + 1) ks)"
  by (induction ks) simp_all

lemma sum_list_insort:
  "sum_list (map f (insort k ks)) = f k + sum_list (map (f :: char \<Rightarrow> nat) ks)"
  by (induction ks) simp_all

lemma sum_list_sort: "sum_list (map f (sort ks)) = sum_list (map (f :: char \<Rightarrow> nat) ks)"
  by (induction ks) (simp_all add: sum_list_insort)

lemma map_of_keys:
  "distinct (map fst al) \<Longrightarrow> map (\<lambda>b. g (the (map_of al b))) (map fst al) = map (\<lambda>(b, c). g c) al"
proof (induction al)
  case Nil
  show ?case by simp
next
  case (Cons e al)
  obtain b c where e: "e = (b, c)" by (cases e)
  from Cons.prems e have nb: "b \<notin> fst ` set al" and d: "distinct (map fst al)" by auto
  have "map (\<lambda>b'. g (the (map_of (e # al) b'))) (map fst al) = map (\<lambda>b'. g (the (map_of al b'))) (map fst al)"
    using nb e by (intro map_cong) auto
  then show ?case using Cons.IH [OF d] e by simp
qed

lemma key_size_ok: "distinct (map fst (C n)) \<Longrightarrow> length (key_buf n) = key_size n"
proof -
  assume d: "distinct (map fst (C n))"
  let ?g = "\<lambda>c. length (decimal c) + 1"
  have "length (groups (\<lambda>b. the (map_of (C n) b)) (sortedKeys (C n)))
      = sum_list (map (\<lambda>b. ?g (the (map_of (C n) b))) (map fst (C n)))"
    unfolding length_groups sortedKeys_def by (rule sum_list_sort)
  also have "\<dots> = sum_list (map (\<lambda>(b, c). ?g c) (C n))"
    by (simp only: map_of_keys [OF d, of ?g])
  finally show ?thesis
    by (simp add: key_buf_groups key_size_def numDigits_decimal sortedKeys_def)
qed

lemma key_ok: "distinct (map fst (C n)) \<Longrightarrow> key n = Inr (key_buf n)"
  by (simp add: key_def Let_def key_size_ok)

lemma key_buf_eq_iff:
  assumes d1: "distinct (map fst (C n1))" and d2: "distinct (map fst (C n2))"
  shows "(key_buf n1 = key_buf n2) = (F n1 = F n2 \<and> map_of (C n1) = map_of (C n2))"
proof
  assume eq: "key_buf n1 = key_buf n2"
  let ?f1 = "\<lambda>b. the (map_of (C n1) b)" and ?f2 = "\<lambda>b. the (map_of (C n2) b)"
  from eq have fl: "F n1 = F n2"
    by (auto simp: key_buf_groups split: if_splits)
  from eq have body: "sortedKeys (C n1) @ groups ?f1 (sortedKeys (C n1))
      = sortedKeys (C n2) @ groups ?f2 (sortedKeys (C n2))"
    by (simp add: key_buf_groups)
  from keys_groups_inj [OF body] have ks: "sortedKeys (C n1) = sortedKeys (C n2)" .
  with body have "groups ?f1 (sortedKeys (C n1)) = groups ?f2 (sortedKeys (C n1))" by simp
  from groups_inj [OF this] have ch: "\<forall>b \<in> set (sortedKeys (C n1)). ?f1 b = ?f2 b" .
  from ks have doms: "fst ` set (C n1) = fst ` set (C n2)"
    by (metis sortedKeys_def set_sort set_map)
  have "map_of (C n1) b = map_of (C n2) b" for b
  proof (cases "b \<in> fst ` set (C n1)")
    case True
    then have "b \<in> set (sortedKeys (C n1))" by (simp add: sortedKeys_def)
    with ch have "?f1 b = ?f2 b" by blast
    moreover from True obtain v1 where "map_of (C n1) b = Some v1"
      by (metis domD dom_map_of_conv_image_fst)
    moreover from True doms obtain v2 where "map_of (C n2) b = Some v2"
      by (metis domD dom_map_of_conv_image_fst)
    ultimately show ?thesis by simp
  next
    case False
    then have "map_of (C n1) b = None" by (simp add: map_of_eq_None_iff)
    moreover from False doms have "map_of (C n2) b = None" by (simp add: map_of_eq_None_iff)
    ultimately show ?thesis by simp
  qed
  with fl show "F n1 = F n2 \<and> map_of (C n1) = map_of (C n2)" by auto
next
  assume a: "F n1 = F n2 \<and> map_of (C n1) = map_of (C n2)"
  then have "fst ` set (C n1) = fst ` set (C n2)"
    by (metis dom_map_of_conv_image_fst)
  then have "set (map fst (C n1)) = set (map fst (C n2))" by simp
  then have "sort (map fst (C n1)) = sort (map fst (C n2))"
    using d1 d2 by (intro sorted_distinct_set_unique) simp_all
  with a show "key_buf n1 = key_buf n2"
    by (simp add: key_buf_groups sortedKeys_def)
qed

text \<open>
  Claim C7.  Two nodes have the same signature if and only if they have the same terminal
  flag and the same children map: the same labels, and under each label a child of the same
  identity.  (The keys of a Go map are unique, which is the hypothesis on the two
  association lists.)
\<close>

theorem key_injective:
  "distinct (map fst (C n1)) \<Longrightarrow> distinct (map fst (C n2)) \<Longrightarrow>
   (key n1 = key n2) = (F n1 = F n2 \<and> map_of (C n1) = map_of (C n2))"
  by (simp add: key_ok key_buf_eq_iff)

theorem key_injective_witness:
  "distinct (map fst [(CHR ''b'', 12), (CHR ''a'', 3::nat)]) \<and>
   distinct (map fst [(CHR ''a'', 3), (CHR ''b'', 12::nat)]) \<and>
   key \<lparr>F = True, C = [(CHR ''b'', 12), (CHR ''a'', 3)]\<rparr> = key \<lparr>F = True, C = [(CHR ''a'', 3), (CHR ''b'', 12)]\<rparr> \<and>
   key \<lparr>F = True, C = [(CHR ''a'', 1), (CHR ''b'', 23)]\<rparr> \<noteq> key \<lparr>F = True, C = [(CHR ''a'', 12), (CHR ''b'', 3)]\<rparr>"
  using key_injective [of "\<lparr>F = True, C = [(CHR ''b'', 12), (CHR ''a'', 3)]\<rparr>" "\<lparr>F = True, C = [(CHR ''a'', 3), (CHR ''b'', 12)]\<rparr>"]
    key_injective [of "\<lparr>F = True, C = [(CHR ''a'', 1), (CHR ''b'', 23)]\<rparr>" "\<lparr>F = True, C = [(CHR ''a'', 12), (CHR ''b'', 3)]\<rparr>"]
  by (auto simp: fun_eq_iff)

section \<open>Invariants of the builder\<close>

lemma accept_Nil [simp]: "accept h n [] = F (h n)"
  by (simp add: accept_def)

lemma accept_Cons [simp]:
  "accept h n (b # w) = (case map_of (C (h n)) b of None \<Rightarrow> False | Some c \<Rightarrow> accept h c w)"
  by (simp add: accept_def split: option.splits)

lemma Lookup_accept: "Lookup d w = accept (heap d) 0 w"
  by (simp add: Lookup_def accept_def)

lemma length_chain_nodes [simp]: "length (chain_nodes es) = Suc (length es)"
  by (simp add: chain_nodes_def)

lemma chain_nodes_snoc [simp]: "chain_nodes (es @ [e]) = chain_nodes es @ [fst (snd e)]"
  by (simp add: chain_nodes_def)

lemma chain_nodes_Nil [simp]: "chain_nodes [] = [0]"
  by (simp add: chain_nodes_def)

lemma last_chain_nodes: "last (chain_nodes es) = chain_nodes es ! length es"
proof -
  have "chain_nodes es \<noteq> []" by (simp add: chain_nodes_def)
  from last_conv_nth [OF this] show ?thesis by simp
qed

lemma chain_nodes_nth_mem: "j \<le> length es \<Longrightarrow> chain_nodes es ! j \<in> set (chain_nodes es)"
  by (simp add: less_Suc_eq_le)

lemma set_update_cases:
  "distinct (map fst al) \<Longrightarrow> (b', c') \<in> set (AList.update b c al) \<Longrightarrow>
   (b', c') = (b, c) \<or> ((b', c') \<in> set al \<and> b' \<noteq> b)"
  by (induction al) (auto split: if_splits simp: rev_image_eqI)

lemma map_fst_update_present:
  "b \<in> fst ` set al \<Longrightarrow> map fst (AList.update b c al) = map fst al"
  by (simp add: update_keys)

lemma distinct_map_of_unique:
  "distinct (map fst al) \<Longrightarrow> map_of al b = Some c \<Longrightarrow> (b, c') \<in> set al \<Longrightarrow> c' = c"
  by (metis map_of_is_SomeI option.inject)

lemma chain_pathD:
  assumes "chain_path h R es" "j < length es" "es ! j = (p, c, b)"
  shows "p = chain_nodes es ! j" and "map_of (C (h p)) b = Some c"
    and "\<forall>(b', c') \<in> set (C (h p)). b' = b \<or> c' \<in> R"
proof -
  from assms(1) have "\<forall>j < length es. case es ! j of (p, c, b) \<Rightarrow>
     p = chain_nodes es ! j \<and> map_of (C (h p)) b = Some c \<and>
     (\<forall>(b', c') \<in> set (C (h p)). b' = b \<or> c' \<in> R)"
    by (simp only: chain_path_def)
  then have "j < length es \<longrightarrow> (case es ! j of (p, c, b) \<Rightarrow>
     p = chain_nodes es ! j \<and> map_of (C (h p)) b = Some c \<and>
     (\<forall>(b', c') \<in> set (C (h p)). b' = b \<or> c' \<in> R))"
    by (rule spec)
  from this assms(2) have "case es ! j of (p, c, b) \<Rightarrow>
     p = chain_nodes es ! j \<and> map_of (C (h p)) b = Some c \<and>
     (\<forall>(b', c') \<in> set (C (h p)). b' = b \<or> c' \<in> R)"
    by (rule mp)
  then have *: "p = chain_nodes es ! j \<and> map_of (C (h p)) b = Some c \<and>
     (\<forall>(b', c') \<in> set (C (h p)). b' = b \<or> c' \<in> R)"
    unfolding assms(3) prod.case .
  from * show "p = chain_nodes es ! j" by (rule conjunct1)
  from * show "map_of (C (h p)) b = Some c" by (elim conjE)
  from * show "\<forall>(b', c') \<in> set (C (h p)). b' = b \<or> c' \<in> R" by (elim conjE)
qed

lemma chain_pathI:
  assumes "\<And>j p c b. j < length es \<Longrightarrow> es ! j = (p, c, b) \<Longrightarrow>
     p = chain_nodes es ! j \<and> map_of (C (h p)) b = Some c \<and>
     (\<forall>(b', c') \<in> set (C (h p)). b' = b \<or> c' \<in> R)"
  shows "chain_path h R es"
  unfolding chain_path_def
proof (intro allI impI)
  fix j assume j: "j < length es"
  obtain p c b where e: "es ! j = (p, c, b)" by (cases "es ! j")
  show "case es ! j of (p, c, b) \<Rightarrow>
     p = chain_nodes es ! j \<and> map_of (C (h p)) b = Some c \<and>
     (\<forall>(b', c') \<in> set (C (h p)). b' = b \<or> c' \<in> R)"
    unfolding e prod.case using assms [OF j e] .
qed

lemma others_closedD:
  assumes "others_closed h R es" "n \<in> set (chain_nodes es) \<longrightarrow> n = last (chain_nodes es)"
  shows "\<forall>(b, c) \<in> set (C (h n)). c \<in> R"
proof -
  from assms(1) have "\<forall>n. (n \<in> set (chain_nodes es) \<longrightarrow> n = last (chain_nodes es)) \<longrightarrow>
     (\<forall>(b, c) \<in> set (C (h n)). c \<in> R)"
    by (simp only: others_closed_def)
  then have "(n \<in> set (chain_nodes es) \<longrightarrow> n = last (chain_nodes es)) \<longrightarrow>
     (\<forall>(b, c) \<in> set (C (h n)). c \<in> R)"
    by (rule spec)
  from this assms(2) show ?thesis by (rule mp)
qed

lemma chain_path_snocD:
  assumes "chain_path h R (es @ [(p, c, b)])"
  shows "chain_path h R es"
    and "p = last (chain_nodes es)"
    and "map_of (C (h p)) b = Some c"
    and "\<forall>(b', c') \<in> set (C (h p)). b' = b \<or> c' \<in> R"
proof -
  show "chain_path h R es"
  proof (rule chain_pathI)
    fix j p' c' b' assume j: "j < length es" and e: "es ! j = (p', c', b')"
    from j have j': "j < length (es @ [(p, c, b)])" by simp
    from j e have e': "(es @ [(p, c, b)]) ! j = (p', c', b')" by (simp add: nth_append)
    from chain_pathD [OF assms j' e'] j
    show "p' = chain_nodes es ! j \<and> map_of (C (h p')) b' = Some c' \<and>
       (\<forall>(b'', c'') \<in> set (C (h p')). b'' = b' \<or> c'' \<in> R)"
      by (simp add: nth_append)
  qed
  have j': "length es < length (es @ [(p, c, b)])" by simp
  have e': "(es @ [(p, c, b)]) ! length es = (p, c, b)" by simp
  from chain_pathD(1) [OF assms j' e'] show "p = last (chain_nodes es)"
    by (simp add: nth_append last_chain_nodes)
  from chain_pathD(2) [OF assms j' e'] show "map_of (C (h p)) b = Some c" .
  from chain_pathD(3) [OF assms j' e'] show "\<forall>(b', c') \<in> set (C (h p)). b' = b \<or> c' \<in> R" .
qed

lemma chain_path_snocI:
  assumes "chain_path h R es"
    and "p = last (chain_nodes es)"
    and "map_of (C (h p)) b = Some c"
    and "\<forall>(b', c') \<in> set (C (h p)). b' = b \<or> c' \<in> R"
  shows "chain_path h R (es @ [(p, c, b)])"
proof (rule chain_pathI)
  fix j p' c' b' assume j: "j < length (es @ [(p, c, b)])" and e: "(es @ [(p, c, b)]) ! j = (p', c', b')"
  show "p' = chain_nodes (es @ [(p, c, b)]) ! j \<and> map_of (C (h p')) b' = Some c' \<and>
       (\<forall>(b'', c'') \<in> set (C (h p')). b'' = b' \<or> c'' \<in> R)"
  proof (cases "j < length es")
    case True
    with e have e': "es ! j = (p', c', b')" by (simp add: nth_append)
    from chain_pathD [OF assms(1) True e'] True show ?thesis by (simp add: nth_append)
  next
    case False
    with j have jl: "j = length es" by simp
    with e have "p' = p" "c' = c" "b' = b" by simp_all
    with assms(2-4) jl show ?thesis by (simp add: nth_append last_chain_nodes)
  qed
qed

lemma chain_path_parent:
  assumes "chain_path h R es" "j < length es"
  shows "fst (es ! j) = chain_nodes es ! j"
proof -
  obtain p c b where e: "es ! j = (p, c, b)" by (cases "es ! j")
  from chain_pathD(1) [OF assms e] e show ?thesis by simp
qed

lemma chain_path_cong:
  assumes "chain_path h R es"
    and "\<forall>j < length es. h' (chain_nodes es ! j) = h (chain_nodes es ! j)"
    and "R \<subseteq> R'"
  shows "chain_path h' R' es"
proof (rule chain_pathI)
  fix j p c b assume j: "j < length es" and e: "es ! j = (p, c, b)"
  note D = chain_pathD [OF assms(1) j e]
  from assms(2) j D(1) have hp: "h' p = h p" by simp
  from D(3) assms(3) have "\<forall>(b', c') \<in> set (C (h p)). b' = b \<or> c' \<in> R'" by blast
  with D(1,2) hp show "p = chain_nodes es ! j \<and> map_of (C (h' p)) b = Some c \<and>
       (\<forall>(b'', c'') \<in> set (C (h' p)). b'' = b \<or> c'' \<in> R')"
    by simp
qed

lemma chain_distinct_snocD:
  assumes "chain_distinct R (es @ [(p, c, b)])"
  shows "chain_distinct R es" and "c \<notin> set (chain_nodes es)" and "c \<notin> R"
proof -
  from assms have d: "distinct (chain_nodes es @ [c])" and i: "set (chain_nodes es @ [c]) \<inter> R = {}"
    by (simp_all add: chain_distinct_def)
  from d have d1: "distinct (chain_nodes es)" and d2: "c \<notin> set (chain_nodes es)" by simp_all
  from i have i1: "set (chain_nodes es) \<inter> R = {}" and i2: "c \<notin> R" by auto
  from d1 i1 show "chain_distinct R es" by (simp add: chain_distinct_def)
  from d2 show "c \<notin> set (chain_nodes es)" .
  from i2 show "c \<notin> R" .
qed

lemma chain_distinct_nth_neq:
  assumes "chain_distinct R es" "j < length es"
  shows "chain_nodes es ! j \<noteq> last (chain_nodes es)"
proof -
  from assms(1) have "distinct (chain_nodes es)" by (simp add: chain_distinct_def)
  with assms(2) show ?thesis
    by (simp add: last_chain_nodes nth_eq_iff_index_eq)
qed

lemma last_chain_nodes_mem: "last (chain_nodes es) \<in> set (chain_nodes es)"
  by (rule last_in_set) (simp add: chain_nodes_def)

text \<open>The facts about the last entry of the chain that both branches of a minimize step use.\<close>

lemma struct_inv_lastD:
  assumes "struct_inv d (es @ [(p, c, b)])"
  shows "p = last (chain_nodes es)"
    and "map_of (C (heap d p)) b = Some c"
    and "\<forall>(b', c') \<in> set (C (heap d p)). b' = b \<or> c' \<in> ran (minimized d)"
    and "\<forall>(b', c') \<in> set (C (heap d c)). c' \<in> ran (minimized d)"
    and "c \<notin> set (chain_nodes es)" and "c \<notin> ran (minimized d)"
    and "p \<in> set (chain_nodes es)" and "p \<notin> ran (minimized d)" and "p \<noteq> c"
    and "chain_distinct (ran (minimized d)) es"
    and "chain_path (heap d) (ran (minimized d)) es"
proof -
  let ?R = "ran (minimized d)" and ?h = "heap d"
  from assms have cd: "chain_distinct ?R (es @ [(p, c, b)])"
    and cp: "chain_path ?h ?R (es @ [(p, c, b)])"
    and oc: "others_closed ?h ?R (es @ [(p, c, b)])"
    by (simp_all add: struct_inv_def)
  from chain_path_snocD [OF cp] show p: "p = last (chain_nodes es)"
    and "map_of (C (?h p)) b = Some c"
    and "\<forall>(b', c') \<in> set (C (?h p)). b' = b \<or> c' \<in> ?R"
    and "chain_path ?h ?R es" by simp_all
  from chain_distinct_snocD [OF cd] show cd': "chain_distinct ?R es"
    and c1: "c \<notin> set (chain_nodes es)" and "c \<notin> ?R" by simp_all
  have "c \<in> set (chain_nodes (es @ [(p, c, b)])) \<longrightarrow> c = last (chain_nodes (es @ [(p, c, b)]))"
    by simp
  from others_closedD [OF oc this] show "\<forall>(b', c') \<in> set (C (?h c)). c' \<in> ?R" .
  from p show pm: "p \<in> set (chain_nodes es)" using last_chain_nodes_mem by simp
  with cd' show "p \<notin> ?R" by (auto simp: chain_distinct_def)
  from pm c1 show "p \<noteq> c" by auto
qed

lemma struct_inv_closedD:
  assumes "struct_inv d (es @ [(p, c, b)])" and "n \<notin> set (chain_nodes es)" 
  shows "\<forall>(b', c') \<in> set (C (heap d n)). c' \<in> ran (minimized d)"
proof -
  from assms(1) have oc: "others_closed (heap d) (ran (minimized d)) (es @ [(p, c, b)])"
    by (simp add: struct_inv_def)
  from assms(2) have "n \<in> set (chain_nodes (es @ [(p, c, b)])) \<longrightarrow> n = last (chain_nodes (es @ [(p, c, b)]))"
    by auto
  from others_closedD [OF oc this] show ?thesis .
qed

lemma set_child_simps [simp]:
  "heap (set_child p b c d) = (heap d)(p := (heap d p)\<lparr>C := AList.update b c (C (heap d p))\<rparr>)"
  "minimized (set_child p b c d) = minimized d"
  "seq (set_child p b c d) = seq d"
  "unchecked (set_child p b c d) = unchecked d"
  by (simp_all add: set_child_def)

lemma struct_invD:
  assumes "struct_inv d es"
  shows "chain_distinct (ran (minimized d)) es"
    and "chain_path (heap d) (ran (minimized d)) es"
    and "others_closed (heap d) (ran (minimized d)) es"
    and "registry_keys (heap d) (minimized d)"
    and "registry_ranked (heap d) (ran (minimized d))"
    and "labels_distinct (heap d)"
    and "bounded (seq d) (ran (minimized d)) es"
    and "\<not> F (heap d 0)"
  using assms by (simp_all add: struct_inv_def)

lemma struct_invI:
  assumes "chain_distinct (ran (minimized d)) es"
    and "chain_path (heap d) (ran (minimized d)) es"
    and "others_closed (heap d) (ran (minimized d)) es"
    and "registry_keys (heap d) (minimized d)"
    and "registry_ranked (heap d) (ran (minimized d))"
    and "labels_distinct (heap d)"
    and "bounded (seq d) (ran (minimized d)) es"
    and "\<not> F (heap d 0)"
  shows "struct_inv d es"
  using assms by (simp add: struct_inv_def)

lemma labels_distinctD: "labels_distinct h \<Longrightarrow> distinct (map fst (C (h n)))"
  by (simp add: labels_distinct_def)

lemma others_closedI:
  assumes "\<And>n b c. n \<in> set (chain_nodes es) \<longrightarrow> n = last (chain_nodes es) \<Longrightarrow>
    (b, c) \<in> set (C (h n)) \<Longrightarrow> c \<in> R"
  shows "others_closed h R es"
  unfolding others_closed_def using assms by auto

lemma registry_rankedI:
  assumes "\<forall>m \<in> R. \<forall>(b, c) \<in> set (C (h m)). (r :: nat \<Rightarrow> nat) c < r m"
  shows "registry_ranked h R"
  unfolding registry_ranked_def using assms by (rule exI [of _ r])

lemma closed_elem: "\<forall>(b, c) \<in> set al. P b c \<Longrightarrow> (b, c) \<in> set al \<Longrightarrow> P b c"
  by auto

lemma struct_inv_merge:
  assumes inv: "struct_inv d (es @ [(p, c, b)])" and m: "minimized d k = Some m"
  shows "struct_inv (set_child p b m d) es"
proof (rule struct_invI)
  let ?R = "ran (minimized d)" and ?h = "heap d"
  let ?d' = "set_child p b m d"
  let ?h' = "heap ?d'"
  note L = struct_inv_lastD [OF inv]
  note S = struct_invD [OF inv]
  have mR: "m \<in> ?R" using m by (rule ranI)
  have hp: "?h' p = (?h p)\<lparr>C := AList.update b m (C (?h p))\<rparr>" by simp
  have hn: "n \<noteq> p \<Longrightarrow> ?h' n = ?h n" for n by simp
  show "chain_distinct (ran (minimized ?d')) es" using L(10) by simp
  have "\<forall>j < length es. ?h' (chain_nodes es ! j) = ?h (chain_nodes es ! j)"
  proof (intro allI impI)
    fix j assume "j < length es"
    from chain_distinct_nth_neq [OF L(10) this] L(1) have "chain_nodes es ! j \<noteq> p" by simp
    then show "?h' (chain_nodes es ! j) = ?h (chain_nodes es ! j)" by (rule hn)
  qed
  from chain_path_cong [OF L(11) this subset_refl]
  show "chain_path ?h' (ran (minimized ?d')) es" by (simp only: set_child_simps(2))
  have "others_closed ?h' ?R es"
  proof (rule others_closedI)
    fix n b' c'
    assume n: "n \<in> set (chain_nodes es) \<longrightarrow> n = last (chain_nodes es)"
      and e: "(b', c') \<in> set (C (?h' n))"
    show "c' \<in> ?R"
    proof (cases "n = p")
      case True
      with e hp have "(b', c') \<in> set (AList.update b m (C (?h p)))" by simp
      from set_update_cases [OF labels_distinctD [OF S(6)] this]
      show ?thesis
      proof
        assume "(b', c') = (b, m)"
        with mR show ?thesis by simp
      next
        assume a: "(b', c') \<in> set (C (?h p)) \<and> b' \<noteq> b"
        with closed_elem [OF L(3), of b' c'] show ?thesis by simp
      qed
    next
      case False
      with n L(1) have "n \<notin> set (chain_nodes es)" by auto
      from struct_inv_closedD [OF inv this] e hn [OF False]
      show ?thesis by auto
    qed
  qed
  then show "others_closed ?h' (ran (minimized ?d')) es" by (simp only: set_child_simps(2))
  have hR: "n \<in> ?R \<Longrightarrow> ?h' n = ?h n" for n using L(8) by auto
  show "registry_keys ?h' (minimized ?d')"
    unfolding registry_keys_def
  proof (intro allI impI)
    fix k' m' assume a: "minimized ?d' k' = Some m'"
    then have "m' \<in> ?R" by (auto intro: ranI)
    from hR [OF this] a S(4) show "key_buf (?h' m') = k'"
      by (simp add: registry_keys_def)
  qed
  from S(5) obtain r :: "nat \<Rightarrow> nat" where r: "\<forall>m \<in> ?R. \<forall>(b, c) \<in> set (C (?h m)). r c < r m"
    unfolding registry_ranked_def by blast
  have "\<forall>m \<in> ?R. \<forall>(b, c) \<in> set (C (?h' m)). r c < r m"
  proof
    fix m' assume "m' \<in> ?R"
    with r hR [OF this] show "\<forall>(b, c) \<in> set (C (?h' m')). r c < r m'" by simp
  qed
  then have "registry_ranked ?h' ?R" by (rule registry_rankedI)
  then show "registry_ranked ?h' (ran (minimized ?d'))" by (simp only: set_child_simps(2))
  show "labels_distinct ?h'"
    unfolding labels_distinct_def
  proof
    fix n show "distinct (map fst (C (?h' n)))"
      using labels_distinctD [OF S(6), of n] labels_distinctD [OF S(6), of p]
      by (cases "n = p") (simp_all add: distinct_update)
  qed
  from S(7) show "bounded (seq ?d') (ran (minimized ?d')) es"
    by (auto simp: bounded_def)
  from S(8) show "\<not> F (heap ?d' 0)" by simp
qed

lemma same_words_refl: "same_words d d"
  by (simp add: same_words_def)

lemma same_words_trans: "same_words d d' \<Longrightarrow> same_words d' d'' \<Longrightarrow> same_words d d''"
  by (simp add: same_words_def)

lemma member_le_sum_list_snd:
  "(b, c) \<in> set al \<Longrightarrow> (r :: nat \<Rightarrow> nat) c \<le> sum_list (map (\<lambda>(b, c). r c) al)"
  by (induction al) auto

lemma struct_inv_register:
  assumes inv: "struct_inv d (es @ [(p, c, b)])"
    and none: "minimized d (key_buf (heap d c)) = None"
  shows "struct_inv (d\<lparr>minimized := (minimized d)(key_buf (heap d c) \<mapsto> c)\<rparr>) es"
proof (rule struct_invI)
  let ?R = "ran (minimized d)" and ?h = "heap d" and ?k = "key_buf (heap d c)"
  let ?d' = "d\<lparr>minimized := (minimized d)(?k \<mapsto> c)\<rparr>"
  let ?R' = "insert c ?R"
  note L = struct_inv_lastD [OF inv]
  note S = struct_invD [OF inv]
  have R': "ran (minimized ?d') = ?R'" using none by simp
  have h': "heap ?d' = ?h" by simp
  have cd: "chain_distinct ?R' es"
    using L(10) L(5) by (auto simp: chain_distinct_def)
  then show "chain_distinct (ran (minimized ?d')) es" by (simp only: R')
  have "chain_path ?h ?R' es"
    by (rule chain_path_cong [OF L(11)]) auto
  then show "chain_path (heap ?d') (ran (minimized ?d')) es" by (simp only: R' h')
  have notchain: "m \<in> ?R \<Longrightarrow> m \<notin> set (chain_nodes es)" for m
    using L(10) by (auto simp: chain_distinct_def)
  have "others_closed ?h ?R' es"
  proof (rule others_closedI)
    fix n b' c'
    assume n: "n \<in> set (chain_nodes es) \<longrightarrow> n = last (chain_nodes es)"
      and e: "(b', c') \<in> set (C (?h n))"
    show "c' \<in> ?R'"
    proof (cases "n = p")
      case True
      with e closed_elem [OF L(3), of b' c'] have "b' = b \<or> c' \<in> ?R" by simp
      then show ?thesis
      proof
        assume "b' = b"
        with e True have "(b, c') \<in> set (C (?h p))" by simp
        from distinct_map_of_unique [OF labels_distinctD [OF S(6)] L(2) this]
        show ?thesis by simp
      next
        assume "c' \<in> ?R" then show ?thesis by simp
      qed
    next
      case False
      with n L(1) have "n \<notin> set (chain_nodes es)" by auto
      from closed_elem [OF struct_inv_closedD [OF inv this] e]
      show ?thesis by simp
    qed
  qed
  then show "others_closed (heap ?d') (ran (minimized ?d')) es" by (simp only: R' h')
  show "registry_keys (heap ?d') (minimized ?d')"
    using S(4) by (auto simp: registry_keys_def)
  from S(5) obtain r :: "nat \<Rightarrow> nat" where r: "\<forall>m \<in> ?R. \<forall>(b, c) \<in> set (C (?h m)). r c < r m"
    unfolding registry_ranked_def by blast
  define r' where "r' = r(c := Suc (sum_list (map (\<lambda>(b, c). r c) (C (?h c)))))"
  have r'c: "r' c = Suc (sum_list (map (\<lambda>(b, c). r c) (C (?h c))))" by (simp add: r'_def)
  have r'n: "n \<noteq> c \<Longrightarrow> r' n = r n" for n by (simp add: r'_def)
  have "\<forall>m \<in> ?R'. \<forall>(b, c) \<in> set (C (?h m)). r' c < r' m"
  proof (intro ballI)
    fix m x assume m: "m \<in> ?R'" and x: "x \<in> set (C (?h m))"
    obtain b'' c'' where xe: "x = (b'', c'')" by (cases x)
    have "r' c'' < r' m"
    proof (cases "m = c")
      case True
      from x xe True have e: "(b'', c'') \<in> set (C (?h c))" by simp
      from closed_elem [OF L(4) e] L(6) have "c'' \<noteq> c" by auto
      from r'n [OF this] member_le_sum_list_snd [OF e, of r] r'c True
      show ?thesis by simp
    next
      case False
      with m have mR: "m \<in> ?R" by simp
      from x xe have e: "(b'', c'') \<in> set (C (?h m))" by simp
      from closed_elem [OF struct_inv_closedD [OF inv notchain [OF mR]] e] L(6)
      have "c'' \<noteq> c" by auto
      from r mR e have "r c'' < r m" by auto
      with r'n [OF False] r'n [OF \<open>c'' \<noteq> c\<close>] show ?thesis by simp
    qed
    with xe show "case x of (b, c) \<Rightarrow> r' c < r' m" by simp
  qed
  then have "registry_ranked ?h ?R'" by (rule registry_rankedI)
  then show "registry_ranked (heap ?d') (ran (minimized ?d'))" by (simp only: R' h')
  from S(6) show "labels_distinct (heap ?d')" by simp
  from S(7) have "bounded (seq d) ?R' es" by (auto simp: bounded_def)
  then have "bounded (seq d) (ran (minimized ?d')) es" by (simp only: R')
  then show "bounded (seq ?d') (ran (minimized ?d')) es" by simp
  from S(8) show "\<not> F (heap ?d' 0)" by simp
qed

lemma accept_eq_nodes:
  assumes "F (h c) = F (h m)" and "map_of (C (h c)) = map_of (C (h m))"
  shows "accept h c w = accept h m w"
  using assms by (cases w) simp_all

lemma accept_merge:
  assumes fe: "F (h c) = F (h m)" and ce: "map_of (C (h c)) = map_of (C (h m))"
    and pc: "map_of (C (h p)) b = Some c"
  shows "accept (h(p := (h p)\<lparr>C := AList.update b m (C (h p))\<rparr>)) n w = accept h n w"
proof (induction w arbitrary: n)
  case Nil
  show ?case by simp
next
  case (Cons x w)
  let ?h' = "h(p := (h p)\<lparr>C := AList.update b m (C (h p))\<rparr>)"
  show ?case
  proof (cases "n = p \<and> x = b")
    case True
    then have "accept ?h' n (x # w) = accept ?h' m w" by (simp add: update_conv')
    also have "\<dots> = accept h m w" by (rule Cons.IH)
    also have "\<dots> = accept h c w" using accept_eq_nodes [OF fe ce] by simp
    also have "\<dots> = accept h n (x # w)" using True pc by simp
    finally show ?thesis .
  next
    case False
    then have "map_of (C (?h' n)) x = map_of (C (h n)) x"
      by (auto simp: update_conv')
    then show ?thesis using Cons.IH by (simp split: option.splits)
  qed
qed

lemma minimize_step_inv:
  assumes inv: "struct_inv d (es @ [e])"
  shows "\<exists>d'. minimize_step e d = Inr d' \<and> struct_inv d' es \<and> same_words d d' \<and>
    (\<forall>n. F (heap d' n) = F (heap d n))"
proof -
  obtain p c b where e: "e = (p, c, b)" by (cases e)
  note inv' = inv [unfolded e]
  note L = struct_inv_lastD [OF inv']
  note S = struct_invD [OF inv']
  let ?k = "key_buf (heap d c)"
  have key: "key (heap d c) = Inr ?k" by (rule key_ok [OF labels_distinctD [OF S(6)]])
  show ?thesis
  proof (cases "minimized d ?k")
    case None
    let ?d' = "d\<lparr>minimized := (minimized d)(?k \<mapsto> c)\<rparr>"
    have "minimize_step e d = Inr ?d'" by (simp add: minimize_step_def e key None)
    moreover have "struct_inv ?d' es" by (rule struct_inv_register [OF inv' None])
    moreover have "same_words d ?d'" by (simp add: same_words_def)
    ultimately show ?thesis by auto
  next
    case (Some m)
    let ?d' = "set_child p b m d"
    have st: "minimize_step e d = Inr ?d'" by (simp add: minimize_step_def e key Some)
    have si: "struct_inv ?d' es" by (rule struct_inv_merge [OF inv' Some])
    from S(4) Some have "key_buf (heap d m) = key_buf (heap d c)" by (simp add: registry_keys_def)
    then have "F (heap d c) = F (heap d m) \<and> map_of (C (heap d c)) = map_of (C (heap d m))"
      using key_buf_eq_iff [OF labels_distinctD [OF S(6)] labels_distinctD [OF S(6)], of c m]
      by simp
    then have fe: "F (heap d c) = F (heap d m)"
      and ce: "map_of (C (heap d c)) = map_of (C (heap d m))" by simp_all
    have acc: "accept (heap ?d') n w = accept (heap d) n w" for n w
      using accept_merge [of "heap d" c m p b n w, OF fe ce L(2)] by simp
    have "b \<in> fst ` set (C (heap d p))"
      using L(2) by (metis domI dom_map_of_conv_image_fst)
    then have "map fst (C (heap ?d' n)) = map fst (C (heap d n))" for n
      by (simp add: map_fst_update_present)
    with acc have "same_words d ?d'" by (simp add: same_words_def)
    moreover have "\<forall>n. F (heap ?d' n) = F (heap d n)" by simp
    ultimately show ?thesis using st si by blast
  qed
qed

lemma minimize_loop_inv:
  assumes "struct_inv d (es @ rev ns)"
  shows "\<exists>d'. minimize_loop ns d = Inr d' \<and> struct_inv d' es \<and> same_words d d' \<and> 
    (\<forall>n. F (heap d' n) = F (heap d n))"
  using assms
proof (induction ns arbitrary: d)
  case Nil
  then show ?case by (simp add: same_words_refl)
next
  case (Cons e ns)
  from Cons.prems have "struct_inv d ((es @ rev ns) @ [e])" by simp
  from minimize_step_inv [OF this] obtain d1 where
    s: "minimize_step e d = Inr d1" and i: "struct_inv d1 (es @ rev ns)"
    and w: "same_words d d1" and f: "\<forall>n. F (heap d1 n) = F (heap d n)" by blast
  from Cons.IH [OF i] obtain d2 where
    s2: "minimize_loop ns d1 = Inr d2" and i2: "struct_inv d2 es"
    and w2: "same_words d1 d2" and f2: "\<forall>n. F (heap d2 n) = F (heap d1 n)" by blast
  from s s2 have "minimize_loop (e # ns) d = Inr d2" by simp
  moreover from same_words_trans [OF w w2] have "same_words d d2" .
  moreover from f f2 have "\<forall>n. F (heap d2 n) = F (heap d n)" by simp
  ultimately show ?case using i2 by blast
qed

lemma struct_inv_unchecked_cong:
  "struct_inv d es \<Longrightarrow> struct_inv (d\<lparr>unchecked := u\<rparr>) es"
  by (simp add: struct_inv_def)

lemma minimize_inv:
  assumes "struct_inv d (unchecked d)"
  shows "\<exists>d'. minimize k d = Inr d' \<and> struct_inv d' (unchecked d') \<and>
    unchecked d' = take k (unchecked d) \<and> seq d' = seq d \<and> prevWord d' = prevWord d \<and>
    (\<forall>n. map fst (C (heap d' n)) = map fst (C (heap d n))) \<and>
    (\<forall>n w. accept (heap d') n w = accept (heap d) n w)"
proof -
  from assms have "struct_inv d (take k (unchecked d) @ rev (rev (drop k (unchecked d))))" by simp
  from minimize_loop_inv [OF this] obtain d1 where
    s: "minimize_loop (rev (drop k (unchecked d))) d = Inr d1"
    and i: "struct_inv d1 (take k (unchecked d))"
    and w: "same_words d d1" by blast
  let ?d' = "d1\<lparr>unchecked := take k (unchecked d1)\<rparr>"
  from w have u: "unchecked d1 = unchecked d" by (simp add: same_words_def)
  from s have "minimize k d = Inr ?d'" by (simp add: minimize_def)
  moreover from struct_inv_unchecked_cong [OF i, of "take k (unchecked d1)"] u
  have "struct_inv ?d' (unchecked ?d')" by simp
  ultimately show ?thesis using w u by (auto simp: same_words_def)
qed

section \<open>Invariants of the insertion loop\<close>

lemma insert_step_fields:
  assumes "insert_step b cur d = (nx, d')"
  shows "nx = seq d + 1"
    and "seq d' = seq d + 1"
    and "unchecked d' = unchecked d @ [(cur, seq d + 1, b)]"
    and "minimized d' = minimized d"
    and "prevWord d' = prevWord d"
    and "cur \<noteq> seq d + 1 \<Longrightarrow> heap d' = ((heap d)(seq d + 1 := empty_node))
          (cur := (heap d cur)\<lparr>C := AList.update b (seq d + 1) (C (heap d cur))\<rparr>)"
  using assms by (auto simp: insert_step_def node_def set_child_def Let_def)

lemma struct_inv_children:
  assumes inv: "struct_inv d es" and e: "(b', c') \<in> set (C (heap d n))"
  shows "c' \<in> ran (minimized d) \<or>
    (\<exists>j < length es. n = chain_nodes es ! j \<and> c' = chain_nodes es ! Suc j \<and> b' = snd (snd (es ! j)))"
proof (cases "n \<in> set (chain_nodes es) \<longrightarrow> n = last (chain_nodes es)")
  case True
  from closed_elem [OF others_closedD [OF struct_invD(3) [OF inv] True] e] show ?thesis by simp
next
  case False
  then have n: "n \<in> set (chain_nodes es)" and nl: "n \<noteq> last (chain_nodes es)" by auto
  from n obtain j where j: "j < length (chain_nodes es)" and nj: "chain_nodes es ! j = n"
    by (auto simp: in_set_conv_nth)
  from nl nj have "j \<noteq> length es" by (auto simp: last_chain_nodes)
  with j have jl: "j < length es" by simp
  obtain p c b where ej: "es ! j = (p, c, b)" by (cases "es ! j")
  note D = chain_pathD [OF struct_invD(2) [OF inv] jl ej]
  from D(1) nj have pn: "p = n" by simp
  from closed_elem [OF D(3), of b' c'] e pn have "b' = b \<or> c' \<in> ran (minimized d)" by simp
  then show ?thesis
  proof
    assume bb: "b' = b"
    with e pn have "(b, c') \<in> set (C (heap d p))" by simp
    from distinct_map_of_unique [OF labels_distinctD [OF struct_invD(6) [OF inv]] D(2) this]
    have "c' = c" .
    with jl ej have "c' = chain_nodes es ! Suc j" by (simp add: chain_nodes_def)
    with jl nj bb ej show ?thesis by auto
  next
    assume "c' \<in> ran (minimized d)" then show ?thesis by simp
  qed
qed

lemma struct_inv_children_bounded:
  assumes inv: "struct_inv d es" and e: "(b', c') \<in> set (C (heap d n))"
  shows "c' \<le> seq d" and "c' \<noteq> 0"
proof -
  note B = struct_invD(7) [OF inv, unfolded bounded_def]
  note CD = struct_invD(1) [OF inv, unfolded chain_distinct_def]
  have z: "0 \<in> set (chain_nodes es)" by (simp add: chain_nodes_def)
  from struct_inv_children [OF inv e]
  show "c' \<le> seq d"
  proof
    assume "c' \<in> ran (minimized d)" with B show ?thesis by blast
  next
    assume "\<exists>j < length es. n = chain_nodes es ! j \<and> c' = chain_nodes es ! Suc j \<and> b' = snd (snd (es ! j))"
    then obtain j where "j < length es" "c' = chain_nodes es ! Suc j" by blast
    then have "c' \<in> set (chain_nodes es)" by (simp add: chain_nodes_nth_mem)
    with B show ?thesis by blast
  qed
  from struct_inv_children [OF inv e]
  show "c' \<noteq> 0"
  proof
    assume "c' \<in> ran (minimized d)" with CD z show ?thesis by auto
  next
    assume "\<exists>j < length es. n = chain_nodes es ! j \<and> c' = chain_nodes es ! Suc j \<and> b' = snd (snd (es ! j))"
    then obtain j where j: "j < length es" and c: "c' = chain_nodes es ! Suc j" by blast
    from CD have "distinct (chain_nodes es)" by simp
    then have "chain_nodes es ! Suc j \<noteq> chain_nodes es ! 0"
      using j by (simp add: nth_eq_iff_index_eq)
    with c show ?thesis by (simp add: chain_nodes_def)
  qed
qed

lemma accept_empty_node: "h n = empty_node \<Longrightarrow> \<not> accept h n w"
  by (cases w) (simp_all add: empty_node_def)

lemma accept_Cons_Some: "map_of (C (h n)) x = Some y \<Longrightarrow> accept h n (x # w) = accept h y w"
  by simp

lemma accept_Cons_None: "map_of (C (h n)) x = None \<Longrightarrow> \<not> accept h n (x # w)"
  by simp

lemma accept_add_leaf:
  assumes ne: "nx \<noteq> cur" and nb: "map_of (C (h cur)) b = None"
    and nc: "\<And>n b' c'. (b', c') \<in> set (C (h n)) \<Longrightarrow> c' \<noteq> nx"
    and n: "n \<noteq> nx"
  shows "accept ((h(nx := empty_node))(cur := (h cur)\<lparr>C := AList.update b nx (C (h cur))\<rparr>)) n w
       = accept h n w"
  using n
proof (induction w arbitrary: n)
  case Nil
  then show ?case by simp
next
  case (Cons x w)
  let ?h' = "(h(nx := empty_node))(cur := (h cur)\<lparr>C := AList.update b nx (C (h cur))\<rparr>)"
  have hnx: "?h' nx = empty_node" using ne by simp
  show ?case
  proof (cases "n = cur \<and> x = b")
    case True
    then have "map_of (C (?h' n)) x = Some nx" by (simp add: update_conv')
    from accept_Cons_Some [of ?h' n x nx w, OF this] accept_empty_node [of ?h' nx w, OF hnx]
    have "\<not> accept ?h' n (x # w)" by blast
    moreover from True nb have "map_of (C (h n)) x = None" by simp
    from accept_Cons_None [of h n x w, OF this] have "\<not> accept h n (x # w)" .
    ultimately show ?thesis by blast
  next
    case False
    with Cons.prems have m: "map_of (C (?h' n)) x = map_of (C (h n)) x"
      by (auto simp: update_conv')
    show ?thesis
    proof (cases "map_of (C (h n)) x")
      case None
      with m have "map_of (C (?h' n)) x = None" by (simp only:)
      from accept_Cons_None [of ?h' n x w, OF this] accept_Cons_None [of h n x w, OF None]
      show ?thesis by blast
    next
      case (Some y)
      then have "(x, y) \<in> set (C (h n))" by (rule map_of_SomeD)
      from nc [OF this] have "y \<noteq> nx" .
      from Cons.IH [OF this] have ih: "accept ?h' y w = accept h y w" .
      from m Some have "map_of (C (?h' n)) x = Some y" by (simp only:)
      from accept_Cons_Some [of ?h' n x y w, OF this] accept_Cons_Some [of h n x y w, OF Some] ih
      show ?thesis by blast
    qed
  qed
qed

lemma label_boundD:
  "label_bound h es \<Longrightarrow> (p, c, b) \<in> set es \<Longrightarrow> (b', c') \<in> set (C (h p)) \<Longrightarrow> b' \<le> b"
  unfolding label_bound_def by fast

lemma label_boundI:
  assumes "\<And>p c b b' c'. (p, c, b) \<in> set es \<Longrightarrow> (b', c') \<in> set (C (h p)) \<Longrightarrow> b' \<le> b"
  shows "label_bound h es"
  unfolding label_bound_def using assms by fast

lemma chain_parent_in_chain:
  assumes cp: "chain_path h R es" and cd: "chain_distinct R es" and e: "(p, c, b) \<in> set es"
  shows "p \<in> set (chain_nodes es)" and "p \<noteq> last (chain_nodes es)"
proof -
  from e obtain j where j: "j < length es" and ej: "es ! j = (p, c, b)"
    by (auto simp: in_set_conv_nth)
  from chain_pathD(1) [OF cp j ej] have p: "p = chain_nodes es ! j" .
  with j show "p \<in> set (chain_nodes es)" by (simp add: chain_nodes_nth_mem)
  from chain_distinct_nth_neq [OF cd j] p show "p \<noteq> last (chain_nodes es)" by simp
qed

lemma boundedD:
  "bounded s R es \<Longrightarrow> n \<in> set (chain_nodes es) \<Longrightarrow> n \<le> s"
  "bounded s R es \<Longrightarrow> n \<in> R \<Longrightarrow> n \<le> s"
  unfolding bounded_def by blast+

lemma insert_step_inv:
  assumes inv: "struct_inv d (unchecked d)"
    and cur: "cur = last (chain_nodes (unchecked d))"
    and fresh: "\<forall>(b', c') \<in> set (C (heap d cur)). b' < b"
    and lb: "label_bound (heap d) (unchecked d)"
    and step: "insert_step b cur d = (nx, d')"
  shows "struct_inv d' (unchecked d')"
    and "label_bound (heap d') (unchecked d')"
    and "nx = last (chain_nodes (unchecked d'))"
    and "C (heap d' nx) = []"
    and "\<forall>n w. n \<le> seq d \<longrightarrow> accept (heap d') n w = accept (heap d) n w"
    and "cur \<noteq> nx"
proof -
  let ?es = "unchecked d" and ?R = "ran (minimized d)" and ?h = "heap d"
  let ?nx = "seq d + 1"
  note S = struct_invD [OF inv]
  note B = S(7) [unfolded bounded_def]
  note CD = S(1) [unfolded chain_distinct_def]
  have curmem: "cur \<in> set (chain_nodes ?es)" unfolding cur by (rule last_chain_nodes_mem)
  then have curle: "cur \<le> seq d" by (rule boundedD(1) [OF S(7)])
  then have curne: "cur \<noteq> ?nx" by simp
  note Fd = insert_step_fields [OF step]
  have nx: "nx = ?nx" by (rule Fd(1))
  have es': "unchecked d' = ?es @ [(cur, ?nx, b)]" by (rule Fd(3))
  have M: "minimized d' = minimized d" by (rule Fd(4))
  have h': "heap d' = (?h(?nx := empty_node))(cur := (?h cur)\<lparr>C := AList.update b ?nx (C (?h cur))\<rparr>)"
    by (rule Fd(6) [OF curne])
  have hnx: "heap d' ?nx = empty_node" using curne by (simp add: h')
  have hcur: "heap d' cur = (?h cur)\<lparr>C := AList.update b ?nx (C (?h cur))\<rparr>" by (simp add: h')
  have hn: "n \<noteq> cur \<Longrightarrow> n \<noteq> ?nx \<Longrightarrow> heap d' n = ?h n" for n by (simp add: h')
  have nxchain: "?nx \<notin> set (chain_nodes ?es)" using boundedD(1) [OF S(7), of ?nx] by auto
  have nxR: "?nx \<notin> ?R" using boundedD(2) [OF S(7), of ?nx] by auto
  have dcur: "distinct (map fst (C (?h cur)))" by (rule labels_distinctD [OF S(6)])
  have curclosed: "\<forall>(b', c') \<in> set (C (?h cur)). c' \<in> ?R"
    by (rule others_closedD [OF S(3)]) (simp add: cur)
  have bnone: "map_of (C (?h cur)) b = None"
  proof (cases "map_of (C (?h cur)) b")
    case (Some y)
    then have "(b, y) \<in> set (C (?h cur))" by (rule map_of_SomeD)
    from closed_elem [OF fresh this] show ?thesis by simp
  qed simp
  show "cur \<noteq> nx" using curne nx by simp
  show "C (heap d' nx) = []" using hnx nx by (simp add: empty_node_def)
  show "nx = last (chain_nodes (unchecked d'))" by (simp add: es' nx)
  have cd': "chain_distinct ?R (?es @ [(cur, ?nx, b)])"
    using CD nxchain nxR by (simp add: chain_distinct_def)
  have hchain: "\<forall>j < length ?es. heap d' (chain_nodes ?es ! j) = ?h (chain_nodes ?es ! j)"
  proof (intro allI impI)
    fix j assume j: "j < length ?es"
    from chain_distinct_nth_neq [OF S(1) j] cur have "chain_nodes ?es ! j \<noteq> cur" by simp
    moreover from j have "chain_nodes ?es ! j \<in> set (chain_nodes ?es)"
      by (simp add: chain_nodes_nth_mem)
    with nxchain have "chain_nodes ?es ! j \<noteq> ?nx" by auto
    ultimately show "heap d' (chain_nodes ?es ! j) = ?h (chain_nodes ?es ! j)" by (rule hn)
  qed
  have cp0: "chain_path (heap d') ?R ?es"
    by (rule chain_path_cong [OF S(2) hchain subset_refl])
  have curch: "\<forall>(b', c') \<in> set (C (heap d' cur)). b' = b \<or> c' \<in> ?R"
  proof -
    have "b' = b \<or> c' \<in> ?R" if "(b', c') \<in> set (C (heap d' cur))" for b' c'
    proof -
      from that hcur have "(b', c') \<in> set (AList.update b ?nx (C (?h cur)))" by simp
      from set_update_cases [OF dcur this] show ?thesis
        using closed_elem [OF curclosed, of b' c'] by auto
    qed
    then show ?thesis by auto
  qed
  have "map_of (C (heap d' cur)) b = Some ?nx" by (simp add: hcur update_conv')
  from chain_path_snocI [OF cp0 cur this curch]
  have cp': "chain_path (heap d') ?R (?es @ [(cur, ?nx, b)])" .
  have oc': "others_closed (heap d') ?R (?es @ [(cur, ?nx, b)])"
  proof (rule others_closedI)
    fix n b' c'
    assume n: "n \<in> set (chain_nodes (?es @ [(cur, ?nx, b)])) \<longrightarrow>
        n = last (chain_nodes (?es @ [(cur, ?nx, b)]))"
      and e: "(b', c') \<in> set (C (heap d' n))"
    show "c' \<in> ?R"
    proof (cases "n = ?nx")
      case True
      with e hnx show ?thesis by (simp add: empty_node_def)
    next
      case False
      with n have nn: "n \<notin> set (chain_nodes ?es)" by auto
      with curmem have "n \<noteq> cur" by auto
      from hn [OF this False] e have e': "(b', c') \<in> set (C (?h n))" by simp
      from nn have "n \<in> set (chain_nodes ?es) \<longrightarrow> n = last (chain_nodes ?es)" by simp
      from closed_elem [OF others_closedD [OF S(3) this] e'] show ?thesis .
    qed
  qed
  have hR: "m \<in> ?R \<Longrightarrow> heap d' m = ?h m" for m
  proof -
    assume m: "m \<in> ?R"
    with CD curmem have "m \<noteq> cur" by auto
    moreover from m nxR have "m \<noteq> ?nx" by auto
    ultimately show ?thesis by (rule hn)
  qed
  have rk': "registry_keys (heap d') (minimized d)"
    unfolding registry_keys_def
  proof (intro allI impI)
    fix k m assume a: "minimized d k = Some m"
    then have "m \<in> ?R" by (rule ranI)
    from hR [OF this] a S(4) show "key_buf (heap d' m) = k" by (simp add: registry_keys_def)
  qed
  from S(5) obtain r :: "nat \<Rightarrow> nat" where r: "\<forall>m \<in> ?R. \<forall>(b, c) \<in> set (C (?h m)). r c < r m"
    unfolding registry_ranked_def by blast
  have "\<forall>m \<in> ?R. \<forall>(b, c) \<in> set (C (heap d' m)). r c < r m"
  proof
    fix m assume "m \<in> ?R"
    with r hR [OF this] show "\<forall>(b, c) \<in> set (C (heap d' m)). r c < r m" by simp
  qed
  then have rr': "registry_ranked (heap d') ?R" by (rule registry_rankedI)
  have ld': "labels_distinct (heap d')"
    unfolding labels_distinct_def
  proof
    fix n show "distinct (map fst (C (heap d' n)))"
    proof (cases "n = cur")
      case True
      with dcur hcur show ?thesis by (simp add: distinct_update)
    next
      case False
      show ?thesis
      proof (cases "n = ?nx")
        case True
        with hnx show ?thesis by (simp add: empty_node_def)
      next
        case nf: False
        from hn [OF False nf] labels_distinctD [OF S(6), of n] show ?thesis by simp
      qed
    qed
  qed
  have bd': "bounded (seq d') ?R (?es @ [(cur, ?nx, b)])"
    unfolding bounded_def
  proof
    fix n assume "n \<in> set (chain_nodes (?es @ [(cur, ?nx, b)])) \<union> ?R"
    then have "n = ?nx \<or> n \<in> set (chain_nodes ?es) \<or> n \<in> ?R" by auto
    then have "n \<le> seq d + 1"
      using boundedD(1) [OF S(7), of n] boundedD(2) [OF S(7), of n] by auto
    then show "n \<le> seq d'" by (simp add: Fd(2))
  qed
  have f0: "\<not> F (heap d' 0)"
  proof (cases "cur = 0")
    case True
    with hcur S(8) show ?thesis by simp
  next
    case False
    then have "heap d' 0 = ?h 0" by (intro hn) simp_all
    with S(8) show ?thesis by simp
  qed
  show "struct_inv d' (unchecked d')"
    by (rule struct_invI) (simp_all only: es' M cd' cp' oc' rk' rr' ld' bd' f0 not_False_eq_True)
  have "label_bound (heap d') (?es @ [(cur, ?nx, b)])"
  proof (rule label_boundI)
    fix p c b0 b' c'
    assume e: "(p, c, b0) \<in> set (?es @ [(cur, ?nx, b)])"
      and x: "(b', c') \<in> set (C (heap d' p))"
    show "b' \<le> b0"
    proof (cases "(p, c, b0) \<in> set ?es")
      case True
      from chain_parent_in_chain [OF S(2) S(1) True] cur nxchain
      have "p \<noteq> cur" "p \<noteq> ?nx" by auto
      from hn [OF this] x have "(b', c') \<in> set (C (?h p))" by simp
      from label_boundD [OF lb True this] show ?thesis .
    next
      case False
      with e have eq: "p = cur" "b0 = b" by simp_all
      with x hcur have "(b', c') \<in> set (AList.update b ?nx (C (?h cur)))" by simp
      from set_update_cases [OF dcur this] show ?thesis
        using closed_elem [OF fresh, of b' c'] eq by auto
    qed
  qed
  then show "label_bound (heap d') (unchecked d')" by (simp only: es')
  have nc: "c' \<noteq> ?nx" if "(b', c') \<in> set (C (?h n))" for n b' c'
    using struct_inv_children_bounded(1) [OF inv that] by simp
  show "\<forall>n w. n \<le> seq d \<longrightarrow> accept (heap d') n w = accept (heap d) n w"
  proof (intro allI impI)
    fix n w assume "n \<le> seq d"
    then have "n \<noteq> ?nx" by simp
    from accept_add_leaf [of ?nx cur ?h b n w, OF curne [symmetric] bnone nc this]
    show "accept (heap d') n w = accept (heap d) n w" by (simp only: h')
  qed
qed

lemma insert_loop_inv:
  assumes "struct_inv d (unchecked d)"
    and "cur = last (chain_nodes (unchecked d))"
    and "bs \<noteq> [] \<longrightarrow> (\<forall>(b', c') \<in> set (C (heap d cur)). b' < hd bs)"
    and "label_bound (heap d) (unchecked d)"
    and "insert_loop bs cur d = (cur', d')"
  shows "struct_inv d' (unchecked d') \<and> label_bound (heap d') (unchecked d') \<and>
    cur' = last (chain_nodes (unchecked d')) \<and>
    (bs \<noteq> [] \<longrightarrow> C (heap d' cur') = []) \<and>
    chain_labels (unchecked d') = chain_labels (unchecked d) @ bs \<and>
    (\<forall>n w. n \<le> seq d \<longrightarrow> accept (heap d') n w = accept (heap d) n w) \<and>
    prevWord d' = prevWord d \<and> seq d \<le> seq d'"
  using assms
proof (induction bs arbitrary: cur d)
  case Nil
  from Nil.prems(5) have "cur' = cur" "d' = d" by simp_all
  with Nil.prems(1,2,4) show ?case by simp
next
  case (Cons b bs)
  obtain nx d1 where step: "insert_step b cur d = (nx, d1)" by (cases "insert_step b cur d")
  from Cons.prems(3) have fresh: "\<forall>(b', c') \<in> set (C (heap d cur)). b' < b" by simp
  note I = insert_step_inv [OF Cons.prems(1) Cons.prems(2) fresh Cons.prems(4) step]
  note Fd = insert_step_fields [OF step]
  from Cons.prems(5) step have loop: "insert_loop bs nx d1 = (cur', d')" by simp
  from I(4) have fresh1: "bs \<noteq> [] \<longrightarrow> (\<forall>(b', c') \<in> set (C (heap d1 nx)). b' < hd bs)" by simp
  note IH = Cons.IH [OF I(1) I(3) fresh1 I(2) loop]
  from IH have a: "struct_inv d' (unchecked d')" and b: "label_bound (heap d') (unchecked d')"
    and c: "cur' = last (chain_nodes (unchecked d'))"
    and e: "bs \<noteq> [] \<longrightarrow> C (heap d' cur') = []"
    and f: "chain_labels (unchecked d') = chain_labels (unchecked d1) @ bs"
    and g: "\<forall>n w. n \<le> seq d1 \<longrightarrow> accept (heap d') n w = accept (heap d1) n w"
    and h: "prevWord d' = prevWord d1" and i: "seq d1 \<le> seq d'" by blast+
  have e': "C (heap d' cur') = []"
  proof (cases "bs = []")
    case True
    with loop have "cur' = nx" "d' = d1" by simp_all
    with I(4) show ?thesis by simp
  next
    case False
    with e show ?thesis by simp
  qed
  have f': "chain_labels (unchecked d') = chain_labels (unchecked d) @ b # bs"
    using f Fd(3) by (simp add: chain_labels_def)
  have g': "\<forall>n w. n \<le> seq d \<longrightarrow> accept (heap d') n w = accept (heap d) n w"
  proof (intro allI impI)
    fix n w assume n: "n \<le> seq d"
    with Fd(2) have "n \<le> seq d1" by simp
    with g have "accept (heap d') n w = accept (heap d1) n w" by simp
    also from I(5) n have "\<dots> = accept (heap d) n w" by simp
    finally show "accept (heap d') n w = accept (heap d) n w" .
  qed
  from h Fd(5) have h': "prevWord d' = prevWord d" by simp
  from i Fd(2) have i': "seq d \<le> seq d'" by simp
  from a b c e' f' g' h' i' show ?case by blast
qed

lemma walk_append:
  "walk h n (u @ v) = (case walk h n u of None \<Rightarrow> None | Some m \<Rightarrow> walk h m v)"
  by (induction u arbitrary: n) (simp_all split: option.splits)

lemma walk_snoc_Some:
  "walk h n (u @ [x]) = Some z \<longleftrightarrow> (\<exists>y. walk h n u = Some y \<and> map_of (C (h y)) x = Some z)"
  by (auto simp: walk_append split: option.splits)

lemma chain_labels_nth: "j < length es \<Longrightarrow> chain_labels es ! j = snd (snd (es ! j))"
  by (simp add: chain_labels_def)

lemma length_chain_labels [simp]: "length (chain_labels es) = length es"
  by (simp add: chain_labels_def)

lemma chain_nodes_inj:
  assumes "struct_inv d es" "i \<le> length es" "j \<le> length es"
    "chain_nodes es ! i = chain_nodes es ! j"
  shows "i = j"
proof -
  from struct_invD(1) [OF assms(1)] have "distinct (chain_nodes es)"
    by (simp add: chain_distinct_def)
  with assms(2-4) show ?thesis by (simp add: nth_eq_iff_index_eq)
qed

lemma chain_nodes_not_registered:
  assumes "struct_inv d es" "j \<le> length es"
  shows "chain_nodes es ! j \<notin> ran (minimized d)"
proof -
  from assms(2) have "chain_nodes es ! j \<in> set (chain_nodes es)" by (rule chain_nodes_nth_mem)
  with struct_invD(1) [OF assms(1)] show ?thesis by (auto simp: chain_distinct_def)
qed

lemma walk_chain:
  assumes inv: "struct_inv d es" and j: "j \<le> length es"
  shows "walk (heap d) 0 (take j (chain_labels es)) = Some (chain_nodes es ! j)"
  using j
proof (induction j)
  case 0
  show ?case by (simp add: chain_nodes_def)
next
  case (Suc j)
  then have jl: "j < length es" by simp
  obtain p c b where ej: "es ! j = (p, c, b)" by (cases "es ! j")
  note D = chain_pathD [OF struct_invD(2) [OF inv] jl ej]
  from jl ej have cj: "chain_nodes es ! Suc j = c" by (simp add: chain_nodes_def)
  from jl ej have lj: "chain_labels es ! j = b" by (simp add: chain_labels_nth)
  from jl have "take (Suc j) (chain_labels es) = take j (chain_labels es) @ [b]"
    using lj by (simp add: take_Suc_conv_app_nth)
  moreover from Suc.IH jl have "walk (heap d) 0 (take j (chain_labels es)) = Some p"
    using D(1) by simp
  ultimately show ?case using D(2) cj by (simp add: walk_append)
qed

lemma walk_chain_unique:
  assumes inv: "struct_inv d es"
  shows "j \<le> length es \<Longrightarrow> walk (heap d) 0 u = Some (chain_nodes es ! j) \<Longrightarrow>
    u = take j (chain_labels es)"
proof (induction u arbitrary: j rule: rev_induct)
  case Nil
  then have "chain_nodes es ! 0 = chain_nodes es ! j" by (simp add: chain_nodes_def)
  from chain_nodes_inj [OF inv _ Nil.prems(1) this] have "j = 0" by simp
  then show ?case by simp
next
  case (snoc x u)
  from snoc.prems(2) obtain y where wy: "walk (heap d) 0 u = Some y"
    and st: "map_of (C (heap d y)) x = Some (chain_nodes es ! j)"
    by (auto simp: walk_snoc_Some)
  from st have "(x, chain_nodes es ! j) \<in> set (C (heap d y))" by (rule map_of_SomeD)
  from struct_inv_children [OF inv this] chain_nodes_not_registered [OF inv snoc.prems(1)]
  obtain i where i: "i < length es" and yi: "y = chain_nodes es ! i"
    and ji: "chain_nodes es ! j = chain_nodes es ! Suc i" and xi: "x = snd (snd (es ! i))"
    by blast
  from i have "Suc i \<le> length es" by simp
  from chain_nodes_inj [OF inv snoc.prems(1) this ji] have j: "j = Suc i" .
  from i have "i \<le> length es" by simp
  from snoc.IH [OF this] wy yi have "u = take i (chain_labels es)" by simp
  with j i xi show ?case by (simp add: take_Suc_conv_app_nth chain_labels_nth)
qed

lemma accept_set_final:
  "accept (h(x := (h x)\<lparr>F := True\<rparr>)) n u = (accept h n u \<or> walk h n u = Some x)"
proof (induction u arbitrary: n)
  case Nil
  show ?case by auto
next
  case (Cons b u)
  let ?h' = "h(x := (h x)\<lparr>F := True\<rparr>)"
  have m: "map_of (C (?h' n)) b = map_of (C (h n)) b" by simp
  show ?case
  proof (cases "map_of (C (h n)) b")
    case None
    with m have "map_of (C (?h' n)) b = None" by (simp only:)
    from accept_Cons_None [of ?h' n b u, OF this]
    have 1: "\<not> accept ?h' n (b # u)" .
    from accept_Cons_None [of h n b u, OF None] have 2: "\<not> accept h n (b # u)" .
    from None have 3: "walk h n (b # u) \<noteq> Some x" by simp
    from 1 2 3 show ?thesis by blast
  next
    case (Some y)
    with m have "map_of (C (?h' n)) b = Some y" by (simp only:)
    from accept_Cons_Some [of ?h' n b y u, OF this]
    have 1: "accept ?h' n (b # u) = accept ?h' y u" .
    from accept_Cons_Some [of h n b y u, OF Some] have 2: "accept h n (b # u) = accept h y u" .
    from Some have 3: "walk h n (b # u) = walk h y u" by simp
    from Cons.IH [of y] have 4: "accept ?h' y u = (accept h y u \<or> walk h y u = Some x)" .
    from 1 2 3 4 show ?thesis by (simp only:)
  qed
qed

lemma lcpLength_facts_conj:
  "pw < w \<Longrightarrow> lcpLength w pw \<le> length pw \<and> lcpLength w pw < length w \<and>
    take (lcpLength w pw) w = take (lcpLength w pw) pw \<and>
    (lcpLength w pw < length pw \<longrightarrow> pw ! lcpLength w pw < w ! lcpLength w pw)"
  by (induction w pw rule: lcpLength.induct) auto

lemma lcpLength_facts:
  assumes "pw < w"
  shows "lcpLength w pw \<le> length pw" and "lcpLength w pw < length w"
    and "take (lcpLength w pw) w = take (lcpLength w pw) pw"
    and "lcpLength w pw < length pw \<longrightarrow> pw ! lcpLength w pw < w ! lcpLength w pw"
  using lcpLength_facts_conj [OF assms] by blast+

section \<open>\<^verbatim>\<open>Insert\<close> keeps the invariant\<close>

lemma last_chain_nodes_if:
  "last (chain_nodes es) = (if length es > 0 then fst (snd (last es)) else 0)"
  by (cases es rule: rev_cases) (simp_all add: chain_nodes_def)

lemma struct_inv_prevWord_cong: "struct_inv d es \<Longrightarrow> struct_inv (d\<lparr>prevWord := w\<rparr>) es"
  by (simp add: struct_inv_def)

lemma label_bound_cong:
  assumes lb: "label_bound h es"
    and lab: "\<forall>n. map fst (C (h' n)) = map fst (C (h n))"
    and sub: "set es' \<subseteq> set es"
  shows "label_bound h' es'"
proof (rule label_boundI)
  fix p c b b' c'
  assume e: "(p, c, b) \<in> set es'" and x: "(b', c') \<in> set (C (h' p))"
  from x have "b' \<in> set (map fst (C (h' p)))" by force
  with lab have "b' \<in> set (map fst (C (h p)))" by simp
  then obtain c'' where "(b', c'') \<in> set (C (h p))" by auto
  from label_boundD [OF lb _ this, of c b] e sub show "b' \<le> b" by auto
qed

lemma chain_nodes_take: "j \<le> k \<Longrightarrow> chain_nodes (take k es) ! j = chain_nodes es ! j"
proof -
  assume j: "j \<le> k"
  have "chain_nodes (take k es) = take (Suc k) (chain_nodes es)"
    by (simp add: chain_nodes_def take_map)
  with j show ?thesis by simp
qed

lemma set_final_fields [simp]:
  "heap (set_final n d) = (heap d)(n := (heap d n)\<lparr>F := True\<rparr>)"
  "minimized (set_final n d) = minimized d"
  "seq (set_final n d) = seq d"
  "unchecked (set_final n d) = unchecked d"
  by (simp_all add: set_final_def)

lemma C_set_final [simp]: "C (heap (set_final x d) n) = C (heap d n)"
  by simp

lemma struct_inv_set_final:
  assumes inv: "struct_inv d es" and x0: "x \<noteq> 0" and xR: "x \<notin> ran (minimized d)"
  shows "struct_inv (set_final x d) es"
proof (rule struct_invI)
  note S = struct_invD [OF inv]
  let ?d' = "set_final x d"
  show "chain_distinct (ran (minimized ?d')) es" using S(1) by simp
  show "chain_path (heap ?d') (ran (minimized ?d')) es"
    using S(2) unfolding chain_path_def by (simp only: C_set_final set_final_fields(2))
  show "others_closed (heap ?d') (ran (minimized ?d')) es"
    using S(3) unfolding others_closed_def by (simp only: C_set_final set_final_fields(2))
  show "registry_keys (heap ?d') (minimized ?d')"
    unfolding registry_keys_def
  proof (intro allI impI)
    fix k m assume a: "minimized ?d' k = Some m"
    then have "m \<in> ran (minimized d)" by (auto intro: ranI)
    with xR have "m \<noteq> x" by auto
    then have "heap ?d' m = heap d m" by simp
    with a S(4) show "key_buf (heap ?d' m) = k" by (simp add: registry_keys_def)
  qed
  show "registry_ranked (heap ?d') (ran (minimized ?d'))"
    using S(5) unfolding registry_ranked_def by (simp only: C_set_final set_final_fields(2))
  show "labels_distinct (heap ?d')"
    using S(6) by (simp add: labels_distinct_def)
  show "bounded (seq ?d') (ran (minimized ?d')) es" using S(7) by simp
  show "\<not> F (heap ?d' 0)" using S(8) x0 by simp
qed

lemma label_bound_set_final:
  "label_bound (heap d) es \<Longrightarrow> label_bound (heap (set_final x d)) es"
  unfolding label_bound_def by (simp only: C_set_final)

lemma last_chain_nodes_nonzero:
  assumes inv: "struct_inv d es" and ne: "es \<noteq> []"
  shows "last (chain_nodes es) \<noteq> 0"
proof
  assume "last (chain_nodes es) = 0"
  then have "chain_nodes es ! length es = 0" by (simp only: last_chain_nodes)
  moreover have "chain_nodes es ! 0 = 0" by (simp add: chain_nodes_def)
  ultimately have "chain_nodes es ! length es = chain_nodes es ! 0" by simp
  from chain_nodes_inj [OF inv _ _ this] ne show False by simp
qed

lemma Insert_inv:
  assumes inv: "dawg_inv W d" and lt: "prevWord d < w"
  shows "\<exists>d'. Insert w d = Inr d' \<and> dawg_inv (insert w W) d' \<and> prevWord d' = w"
proof -
  let ?pw = "prevWord d" and ?uc = "unchecked d"
  let ?l = "lcpLength w ?pw"
  from inv have si: "struct_inv d ?uc" and lb: "label_bound (heap d) ?uc"
    and lab: "chain_labels ?uc = ?pw"
    and lastC: "C (heap d (last (chain_nodes ?uc))) = []"
    and acc: "\<forall>u. accept (heap d) 0 u = (u \<in> W)"
    by (simp_all add: dawg_inv_def)
  note LF = lcpLength_facts [OF lt]
  from lab have len: "length ?uc = length ?pw" by (metis length_chain_labels)
  from minimize_inv [OF si, of ?l] obtain d1 where
    m: "minimize ?l d = Inr d1" and si1: "struct_inv d1 (unchecked d1)"
    and uc1: "unchecked d1 = take ?l ?uc" and seq1: "seq d1 = seq d"
    and lab1: "\<forall>n. map fst (C (heap d1 n)) = map fst (C (heap d n))"
    and acc1: "\<forall>n u. accept (heap d1) n u = accept (heap d) n u"
    by blast
  let ?d2 = "d1\<lparr>prevWord := w\<rparr>"
  let ?cur = "last (chain_nodes (unchecked ?d2))"
  have si2: "struct_inv ?d2 (unchecked ?d2)"
    using struct_inv_prevWord_cong [OF si1, of w] by simp
  have lb2: "label_bound (heap ?d2) (unchecked ?d2)"
    using label_bound_cong [OF lb lab1, of "take ?l ?uc"] uc1 by (simp add: set_take_subset)
  have cur_eq: "?cur = chain_nodes ?uc ! ?l"
    using LF(1) len by (simp add: last_chain_nodes uc1 chain_nodes_take)
  have dne: "drop ?l w \<noteq> []" using LF(2) by simp
  have hd: "hd (drop ?l w) = w ! ?l" using LF(2) by (simp add: hd_drop_conv_nth)
  have fresh: "\<forall>(b', c') \<in> set (C (heap ?d2 ?cur)). b' < hd (drop ?l w)"
  proof (cases "?l < length ?pw")
    case True
    with len have ll: "?l < length ?uc" by simp
    obtain p c b where e: "?uc ! ?l = (p, c, b)" by (cases "?uc ! ?l")
    from chain_pathD(1) [OF struct_invD(2) [OF si] ll e] cur_eq have p: "p = ?cur" by simp
    from ll e lab have b: "b = ?pw ! ?l" by (metis chain_labels_nth snd_conv)
    from ll e have mem: "(p, c, b) \<in> set ?uc" by (metis nth_mem)
    have "b' < hd (drop ?l w)" if x: "(b', c') \<in> set (C (heap ?d2 ?cur))" for b' c'
    proof -
      from x have "b' \<in> set (map fst (C (heap d1 ?cur)))" by force
      with lab1 have "b' \<in> set (map fst (C (heap d ?cur)))" by simp
      then obtain c'' where "(b', c'') \<in> set (C (heap d p))" using p by auto
      from label_boundD [OF lb mem this] have "b' \<le> ?pw ! ?l" using b by simp
      with LF(4) True hd show ?thesis by simp
    qed
    then show ?thesis by auto
  next
    case False
    with LF(1) len have "?l = length ?uc" by simp
    with cur_eq have "?cur = last (chain_nodes ?uc)" by (simp add: last_chain_nodes)
    with lastC have "map fst (C (heap d ?cur)) = []" by simp
    with lab1 have "map fst (C (heap d1 ?cur)) = []" by simp
    then show ?thesis by simp
  qed
  obtain cur' d3 where loop: "insert_loop (drop ?l w) ?cur ?d2 = (cur', d3)"
    by (cases "insert_loop (drop ?l w) ?cur ?d2")
  from fresh have fresh': "drop ?l w \<noteq> [] \<longrightarrow>
      (\<forall>(b', c') \<in> set (C (heap ?d2 ?cur)). b' < hd (drop ?l w))" by simp
  from insert_loop_inv [OF si2 refl fresh' lb2 loop] dne
  have si3: "struct_inv d3 (unchecked d3)" and lb3: "label_bound (heap d3) (unchecked d3)"
    and cur': "cur' = last (chain_nodes (unchecked d3))"
    and C3: "C (heap d3 cur') = []"
    and lab3: "chain_labels (unchecked d3) = chain_labels (unchecked ?d2) @ drop ?l w"
    and acc3: "\<forall>n u. n \<le> seq ?d2 \<longrightarrow> accept (heap d3) n u = accept (heap ?d2) n u"
    and pw3: "prevWord d3 = prevWord ?d2"
    by blast+
  have "chain_labels (take ?l ?uc) = take ?l (chain_labels ?uc)"
    by (simp add: chain_labels_def take_map)
  with uc1 lab have "chain_labels (unchecked ?d2) = take ?l ?pw" by simp
  with lab3 LF(3) [symmetric] have labw: "chain_labels (unchecked d3) = w"
    by (metis append_take_drop_id)
  then have len3: "length (unchecked d3) = length w" by (metis length_chain_labels)
  with LF(2) have ne3: "unchecked d3 \<noteq> []" by auto
  from last_chain_nodes_nonzero [OF si3 ne3] cur' have cur0: "cur' \<noteq> 0" by simp
  have curR: "cur' \<notin> ran (minimized d3)"
    using chain_nodes_not_registered [OF si3, of "length (unchecked d3)"] cur'
    by (simp add: last_chain_nodes)
  let ?d' = "set_final cur' d3"
  have ins: "Insert w d = Inr ?d'"
    using lt m loop
    by (cases "unchecked d1 = []") (simp_all add: Insert_def Let_def last_chain_nodes_if not_le)
  have si': "struct_inv ?d' (unchecked ?d')"
    using struct_inv_set_final [OF si3 cur0 curR] by simp
  have lb': "label_bound (heap ?d') (unchecked ?d')"
    using label_bound_set_final [OF lb3, of cur'] by simp
  have lab': "chain_labels (unchecked ?d') = prevWord ?d'" using labw pw3 by simp
  have C': "C (heap ?d' (last (chain_nodes (unchecked ?d')))) = []"
    using C3 cur' by simp
  have acc': "accept (heap ?d') 0 u = (u \<in> insert w W)" for u
  proof -
    have "accept (heap ?d') 0 u = (accept (heap d3) 0 u \<or> walk (heap d3) 0 u = Some cur')"
      by (simp only: set_final_fields(1) accept_set_final)
    moreover have "accept (heap d3) 0 u = (u \<in> W)"
      using acc3 acc1 acc by simp
    moreover have "(walk (heap d3) 0 u = Some cur') = (u = w)"
    proof
      assume "walk (heap d3) 0 u = Some cur'"
      then have "walk (heap d3) 0 u = Some (chain_nodes (unchecked d3) ! length (unchecked d3))"
        by (simp add: cur' last_chain_nodes)
      from walk_chain_unique [OF si3 _ this] labw len3 show "u = w" by simp
    next
      assume "u = w"
      with walk_chain [OF si3, of "length (unchecked d3)"] labw len3
      show "walk (heap d3) 0 u = Some cur'" by (simp add: cur' last_chain_nodes)
    qed
    ultimately show ?thesis by auto
  qed
  from si' lb' lab' C' acc' have "dawg_inv (insert w W) ?d'"
    unfolding dawg_inv_def by blast
  moreover from pw3 have "prevWord ?d' = w" by simp
  ultimately show ?thesis using ins by blast
qed

section \<open>Membership\<close>

lemma struct_inv_init: "struct_inv init []"
proof (rule struct_invI)
  show "chain_distinct (ran (minimized init)) []" by (simp add: chain_distinct_def init_def)
  show "chain_path (heap init) (ran (minimized init)) []" by (simp add: chain_path_def)
  show "others_closed (heap init) (ran (minimized init)) []"
    by (simp add: others_closed_def init_def empty_node_def)
  show "registry_keys (heap init) (minimized init)" by (simp add: registry_keys_def init_def)
  show "registry_ranked (heap init) (ran (minimized init))"
    by (simp add: registry_ranked_def init_def)
  show "labels_distinct (heap init)" by (simp add: labels_distinct_def init_def empty_node_def)
  show "bounded (seq init) (ran (minimized init)) []" by (simp add: bounded_def init_def)
  show "\<not> F (heap init 0)" by (simp add: init_def empty_node_def)
qed

lemma dawg_inv_init: "dawg_inv {} init"
proof -
  have u: "unchecked init = []" by (simp add: init_def)
  have "\<not> accept (heap init) 0 w" for w
    by (rule accept_empty_node) (simp add: init_def)
  then show ?thesis
    using struct_inv_init
    by (simp add: dawg_inv_def u label_bound_def chain_labels_def)
      (simp add: init_def empty_node_def)
qed

lemma inserts_inv:
  assumes "dawg_inv W d" and "sorted_wrt (<) (prevWord d # ws)"
  shows "\<exists>d'. inserts ws d = Inr d' \<and> dawg_inv (W \<union> set ws) d'"
  using assms
proof (induction ws arbitrary: d W)
  case Nil
  then show ?case by simp
next
  case (Cons w ws)
  from Cons.prems(2) have lt: "prevWord d < w" by simp
  from Insert_inv [OF Cons.prems(1) lt] obtain d1 where
    i: "Insert w d = Inr d1" and inv1: "dawg_inv (insert w W) d1" and pw: "prevWord d1 = w"
    by blast
  from Cons.prems(2) pw have "sorted_wrt (<) (prevWord d1 # ws)" by simp
  from Cons.IH [OF inv1 this] obtain d' where
    "inserts ws d1 = Inr d'" "dawg_inv (insert w W \<union> set ws) d'" by blast
  with i show ?case by simp
qed

lemma Finish_inv:
  assumes "dawg_inv W d"
  shows "\<exists>d'. Finish d = Inr d' \<and> struct_inv d' [] \<and> unchecked d' = [] \<and>
    (\<forall>w. accept (heap d') 0 w = (w \<in> W))"
proof -
  from assms have si: "struct_inv d (unchecked d)"
    and acc: "\<forall>u. accept (heap d) 0 u = (u \<in> W)"
    by (simp_all add: dawg_inv_def)
  from minimize_inv [OF si, of 0] obtain d' where
    m: "minimize 0 d = Inr d'" and si': "struct_inv d' (unchecked d')"
    and uc: "unchecked d' = take 0 (unchecked d)"
    and acc': "\<forall>n u. accept (heap d') n u = accept (heap d) n u"
    by blast
  from uc have u: "unchecked d' = []" by simp
  with si' have "struct_inv d' []" by simp
  with m u acc acc' show ?thesis by (auto simp: Finish_def)
qed



section \<open>Reachable states\<close>

lemma Insert_Inr_gt: "Insert w d = Inr d' \<Longrightarrow> prevWord d < w"
  by (simp add: Insert_def not_le split: if_splits)

lemma building_inv: "building d \<Longrightarrow> \<exists>W. dawg_inv W d"
proof (induction rule: building.induct)
  case building_init
  show ?case using dawg_inv_init by blast
next
  case (building_Insert d w d')
  from building_Insert.IH obtain W where inv: "dawg_inv W d" by blast
  from Insert_inv [OF inv Insert_Inr_gt [OF building_Insert.hyps(2)]] building_Insert.hyps(2)
  show ?case by auto
qed

lemma building_struct_inv: "building d \<Longrightarrow> struct_inv d (unchecked d)"
  using building_inv by (auto simp: dawg_inv_def)

lemma finished_struct_inv: "finished d \<Longrightarrow> struct_inv d []"
proof -
  assume "finished d"
  then obtain d0 where b: "building d0" and f: "Finish d0 = Inr d" by (auto simp: finished_def)
  from building_inv [OF b] obtain W where "dawg_inv W d0" by blast
  from Finish_inv [OF this] f show ?thesis by auto
qed

lemma reachable_state_struct_inv:
  "building d \<or> finished d \<Longrightarrow> \<exists>es. struct_inv d es"
  using building_struct_inv finished_struct_inv by blast

text \<open>
  Claim C10.  \<^verbatim>\<open>Insert("")\<close> panics with the ordering violation in every builder state, the
  first call included; so the root is not terminal in any reachable state, and
  \<^verbatim>\<open>Lookup("")\<close> is false there.
\<close>

theorem empty_word_never_member:
  "Insert [] d = Inl OrderingViolation \<and>
   (building d \<or> finished d \<longrightarrow> \<not> F (heap d 0) \<and> \<not> Lookup d [])"
proof -
  have "Insert [] d = Inl OrderingViolation" by (simp add: Insert_def)
  moreover have "\<not> F (heap d 0) \<and> \<not> Lookup d []" if "building d \<or> finished d"
  proof -
    from reachable_state_struct_inv [OF that] obtain es where "struct_inv d es" by blast
    from struct_invD(8) [OF this] show ?thesis by (simp add: Lookup_accept)
  qed
  ultimately show ?thesis by blast
qed

theorem empty_word_never_member_witness:
  "building init \<and> Insert [] init = Inl OrderingViolation \<and> \<not> F (heap init 0) \<and> \<not> Lookup init []"
  using empty_word_never_member [of init] building_init by simp

section \<open>Acyclicity\<close>

lemma edgesI: "(b, c) \<in> set (C (h n)) \<Longrightarrow> (n, c) \<in> edges h"
  by (force simp: edges_def)

lemma edgesE:
  assumes "(n, c) \<in> edges h"
  obtains b where "(b, c) \<in> set (C (h n))"
  using assms by (auto simp: edges_def)

lemma registered_not_chain:
  assumes "struct_inv d es" "m \<in> ran (minimized d)"
  shows "m \<notin> set (chain_nodes es)"
  using struct_invD(1) [OF assms(1)] assms(2) by (auto simp: chain_distinct_def)

lemma registered_child:
  assumes inv: "struct_inv d es" and m: "m \<in> ran (minimized d)" and e: "(m, c) \<in> edges (heap d)"
  shows "c \<in> ran (minimized d)"
proof -
  from e obtain b where x: "(b, c) \<in> set (C (heap d m))" by (rule edgesE)
  from registered_not_chain [OF inv m]
  have "m \<in> set (chain_nodes es) \<longrightarrow> m = last (chain_nodes es)" by simp
  from closed_elem [OF others_closedD [OF struct_invD(3) [OF inv] this] x] show ?thesis .
qed

lemma registered_trancl:
  assumes inv: "struct_inv d es"
    and r: "\<forall>m \<in> ran (minimized d). \<forall>(b, c) \<in> set (C (heap d m)). (r :: nat \<Rightarrow> nat) c < r m"
    and m: "m \<in> ran (minimized d)" and p: "(m, y) \<in> (edges (heap d))\<^sup>+"
  shows "y \<in> ran (minimized d) \<and> r y < r m"
  using p
proof (induction rule: trancl_induct)
  case (base y)
  from base obtain b where x: "(b, y) \<in> set (C (heap d m))" by (rule edgesE)
  from r m x have "r y < r m" by fast
  with registered_child [OF inv m base] show ?case by simp
next
  case (step y z)
  from step.IH have yR: "y \<in> ran (minimized d)" and ry: "r y < r m" by simp_all
  from step.hyps(2) obtain b where x: "(b, z) \<in> set (C (heap d y))" by (rule edgesE)
  from r yR x have "r z < r y" by fast
  with ry registered_child [OF inv yR step.hyps(2)] show ?case by simp
qed

lemma registered_rtrancl:
  assumes inv: "struct_inv d es" and m: "m \<in> ran (minimized d)"
    and p: "(m, y) \<in> (edges (heap d))\<^sup>*"
  shows "y \<in> ran (minimized d)"
  using p
proof (induction rule: rtrancl_induct)
  case base
  show ?case by (rule m)
next
  case (step y z)
  from registered_child [OF inv step.IH step.hyps(2)] show ?case .
qed

lemma chain_edge:
  assumes inv: "struct_inv d es" and i: "i \<le> length es"
    and e: "(chain_nodes es ! i, y) \<in> edges (heap d)"
  shows "y \<in> ran (minimized d) \<or> (Suc i \<le> length es \<and> y = chain_nodes es ! Suc i)"
proof -
  from e obtain b where x: "(b, y) \<in> set (C (heap d (chain_nodes es ! i)))" by (rule edgesE)
  from struct_inv_children [OF inv x]
  show ?thesis
  proof
    assume "y \<in> ran (minimized d)" then show ?thesis by simp
  next
    assume "\<exists>j<length es. chain_nodes es ! i = chain_nodes es ! j \<and>
        y = chain_nodes es ! Suc j \<and> b = snd (snd (es ! j))"
    then obtain j where j: "j < length es" and ij: "chain_nodes es ! i = chain_nodes es ! j"
      and y: "y = chain_nodes es ! Suc j" by blast
    from j have "j \<le> length es" by simp
    from chain_nodes_inj [OF inv i this ij] j y show ?thesis by simp
  qed
qed

lemma chain_trancl:
  assumes inv: "struct_inv d es" and i: "i \<le> length es"
    and p: "(chain_nodes es ! i, y) \<in> (edges (heap d))\<^sup>+"
  shows "y \<in> ran (minimized d) \<or> (\<exists>j. i < j \<and> j \<le> length es \<and> y = chain_nodes es ! j)"
  using p
proof (induction rule: trancl_induct)
  case (base y)
  from chain_edge [OF inv i base] show ?case by auto
next
  case (step y z)
  from step.IH show ?case
  proof
    assume "y \<in> ran (minimized d)"
    from registered_child [OF inv this step.hyps(2)] show ?thesis by simp
  next
    assume "\<exists>j. i < j \<and> j \<le> length es \<and> y = chain_nodes es ! j"
    then obtain j where j: "i < j" "j \<le> length es" and y: "y = chain_nodes es ! j" by blast
    from chain_edge [OF inv j(2)] step.hyps(2) y
    have "z \<in> ran (minimized d) \<or> (Suc j \<le> length es \<and> z = chain_nodes es ! Suc j)" by simp
    then show ?thesis
    proof
      assume "z \<in> ran (minimized d)" then show ?thesis by simp
    next
      assume a: "Suc j \<le> length es \<and> z = chain_nodes es ! Suc j"
      from j(1) have "i < Suc j" by simp
      with a have "\<exists>k. i < k \<and> k \<le> length es \<and> z = chain_nodes es ! k" by blast
      then show ?thesis by simp
    qed
  qed
qed

lemma other_edge:
  assumes inv: "struct_inv d es" and x: "x \<notin> set (chain_nodes es)"
    and e: "(x, y) \<in> edges (heap d)"
  shows "y \<in> ran (minimized d)"
proof -
  from e obtain b where m: "(b, y) \<in> set (C (heap d x))" by (rule edgesE)
  from x have "x \<in> set (chain_nodes es) \<longrightarrow> x = last (chain_nodes es)" by simp
  from closed_elem [OF others_closedD [OF struct_invD(3) [OF inv] this] m] show ?thesis .
qed

lemma struct_inv_acyclic:
  assumes inv: "struct_inv d es"
  shows "acyclic (edges (heap d))"
  unfolding acyclic_def
proof (intro allI notI)
  fix x assume c: "(x, x) \<in> (edges (heap d))\<^sup>+"
  from struct_invD(5) [OF inv] obtain r :: "nat \<Rightarrow> nat" where
    r: "\<forall>m \<in> ran (minimized d). \<forall>(b, c) \<in> set (C (heap d m)). r c < r m"
    unfolding registry_ranked_def by blast
  have notR: "x \<notin> ran (minimized d)"
  proof
    assume "x \<in> ran (minimized d)"
    from registered_trancl [OF inv r this c] show False by simp
  qed
  show False
  proof (cases "x \<in> set (chain_nodes es)")
    case True
    then obtain i where i: "i < length (chain_nodes es)" and xi: "chain_nodes es ! i = x"
      by (auto simp: in_set_conv_nth)
    from i have il: "i \<le> length es" by simp
    from chain_trancl [OF inv il] c xi notR
    obtain j where j: "i < j" "j \<le> length es" and "x = chain_nodes es ! j" by auto
    with xi have "chain_nodes es ! i = chain_nodes es ! j" by simp
    from chain_nodes_inj [OF inv il j(2) this] j(1) show False by simp
  next
    case False
    from c obtain y where e: "(x, y) \<in> edges (heap d)" and p: "(y, x) \<in> (edges (heap d))\<^sup>*"
      by (metis tranclD)
    from registered_rtrancl [OF inv other_edge [OF inv False e] p] notR show False by simp
  qed
qed

text \<open>
  Claim C6.  In every state reached by successful calls of \<^verbatim>\<open>Insert\<close>, and in the state after
  \<^verbatim>\<open>Finish\<close>, the graph of all nodes is acyclic: no path of edges leads from a node
  back to itself.
\<close>

theorem reachable_states_acyclic:
  "building d \<or> finished d \<Longrightarrow> acyclic (edges (heap d)) \<and> (\<forall>n. (n, n) \<notin> (edges (heap d))\<^sup>+)"
proof -
  assume "building d \<or> finished d"
  from reachable_state_struct_inv [OF this] obtain es where "struct_inv d es" by blast
  from struct_inv_acyclic [OF this] show ?thesis by (simp add: acyclic_def)
qed

lemma inserts_building: "building d \<Longrightarrow> inserts ws d = Inr d' \<Longrightarrow> building d'"
proof (induction ws arbitrary: d)
  case Nil
  then show ?case by simp
next
  case (Cons w ws)
  from Cons.prems(2) obtain d1 where i: "Insert w d = Inr d1" and r: "inserts ws d1 = Inr d'"
    by (auto split: sum.splits)
  from building_Insert [OF Cons.prems(1) i] have "building d1" .
  from Cons.IH [OF this r] show ?case .
qed

lemma build_finished: "build ws = Inr d \<Longrightarrow> finished d"
proof -
  assume "build ws = Inr d"
  then obtain d1 where i: "inserts ws init = Inr d1" and f: "Finish d1 = Inr d"
    by (auto simp: build_def split: sum.splits)
  from inserts_building [OF building_init i] f show ?thesis by (auto simp: finished_def)
qed

lemma build_succeeds:
  assumes "sorted_wrt (<) ws" and "[] \<notin> set ws"
  shows "\<exists>d. build ws = Inr d \<and> finished d \<and> (\<forall>w. accept (heap d) 0 w = (w \<in> set ws))"
proof -
  from assms(2) have "\<forall>w \<in> set ws. [] < w" by (metis Nil_less_Cons neq_Nil_conv)
  with assms(1) have "sorted_wrt (<) (prevWord init # ws)" by (simp add: init_def)
  from inserts_inv [OF dawg_inv_init this] obtain d1 where
    i: "inserts ws init = Inr d1" and inv: "dawg_inv ({} \<union> set ws) d1" by blast
  from Finish_inv [OF inv] obtain d where f: "Finish d1 = Inr d"
    and acc: "\<forall>w. accept (heap d) 0 w = (w \<in> {} \<union> set ws)" by blast
  from i f have "build ws = Inr d" by (simp add: build_def)
  with build_finished [OF this] acc show ?thesis by auto
qed

theorem reachable_states_acyclic_witness:
  "\<exists>d. build [''a'', ''are'', ''as'', ''at''] = Inr d \<and> (building d \<or> finished d) \<and>
     acyclic (edges (heap d)) \<and> (\<forall>n. (n, n) \<notin> (edges (heap d))\<^sup>+)"
proof -
  have "sorted_wrt (<) [''a'', ''are'', ''as'', ''at'']" "[] \<notin> set [''a'', ''are'', ''as'', ''at'']"
    by simp_all
  from build_succeeds [OF this] obtain d where
    b: "build [''a'', ''are'', ''as'', ''at''] = Inr d" and f: "finished d" by blast
  from f have "building d \<or> finished d" by simp
  from reachable_states_acyclic [OF this] b f show ?thesis by blast
qed

section \<open>Minimality\<close>

lemma walk_edges: "walk h a u = Some b \<Longrightarrow> (a, b) \<in> (edges h)\<^sup>*"
proof (induction u arbitrary: a)
  case Nil
  then show ?case by simp
next
  case (Cons x u)
  from Cons.prems obtain y where m: "map_of (C (h a)) x = Some y" and w: "walk h y u = Some b"
    by (auto split: option.splits)
  from m have "(x, y) \<in> set (C (h a))" by (rule map_of_SomeD)
  then have "(a, y) \<in> edges h" by (rule edgesI)
  from this Cons.IH [OF w] show ?case by (rule converse_rtrancl_into_rtrancl)
qed

lemma finished_reachable:
  assumes inv: "struct_inv d []" and n: "n \<in> reachable d"
  shows "n = 0 \<or> n \<in> ran (minimized d)"
proof -
  from n obtain w where "walk (heap d) 0 w = Some n" by (auto simp: reachable_def)
  then show ?thesis
  proof (cases w rule: rev_cases)
    case Nil
    with \<open>walk (heap d) 0 w = Some n\<close> show ?thesis by simp
  next
    case (snoc u x)
    with \<open>walk (heap d) 0 w = Some n\<close> obtain y where "map_of (C (heap d y)) x = Some n"
      by (auto simp: walk_snoc_Some)
    then have "(x, n) \<in> set (C (heap d y))" by (rule map_of_SomeD)
    from struct_inv_children [OF inv this] show ?thesis by simp
  qed
qed

lemma registered_key:
  assumes inv: "struct_inv d es" and m: "m \<in> ran (minimized d)"
  shows "minimized d (key_buf (heap d m)) = Some m"
proof -
  from m obtain k where k: "minimized d k = Some m" by (auto simp: ran_def)
  with struct_invD(4) [OF inv] have "key_buf (heap d m) = k" by (simp add: registry_keys_def)
  with k show ?thesis by simp
qed

lemma finished_keys_distinct:
  assumes inv: "struct_inv d []" and n1: "n1 \<in> reachable d" and n2: "n2 \<in> reachable d"
    and ne: "n1 \<noteq> n2"
  shows "key (heap d n1) \<noteq> key (heap d n2)"
proof
  assume "key (heap d n1) = key (heap d n2)"
  note ld = labels_distinctD [OF struct_invD(6) [OF inv]]
  from \<open>key (heap d n1) = key (heap d n2)\<close> have kb: "key_buf (heap d n1) = key_buf (heap d n2)"
    by (simp add: key_ok [OF ld])
  have root: False if r: "m \<in> reachable d" and m0: "m \<noteq> 0"
    and k: "key_buf (heap d 0) = key_buf (heap d m)" for m
  proof -
    from k have ch: "map_of (C (heap d 0)) = map_of (C (heap d m))"
      using key_buf_eq_iff [OF ld ld, of 0 m] by simp
    from r obtain w where w: "walk (heap d) 0 w = Some m" by (auto simp: reachable_def)
    with m0 obtain x u where wx: "w = x # u" by (cases w) auto
    with w obtain y where s: "map_of (C (heap d 0)) x = Some y" and p: "walk (heap d) y u = Some m"
      by (auto split: option.splits)
    from s ch have "map_of (C (heap d m)) x = Some y" by simp
    then have "(x, y) \<in> set (C (heap d m))" by (rule map_of_SomeD)
    then have "(m, y) \<in> edges (heap d)" by (rule edgesI)
    from this walk_edges [OF p] have "(m, m) \<in> (edges (heap d))\<^sup>+"
      by (rule rtrancl_into_trancl2)
    with struct_inv_acyclic [OF inv] show False by (simp add: acyclic_def)
  qed
  from finished_reachable [OF inv n1] finished_reachable [OF inv n2] ne
  consider "n1 = 0" "n2 \<noteq> 0" | "n2 = 0" "n1 \<noteq> 0"
    | "n1 \<in> ran (minimized d)" "n2 \<in> ran (minimized d)" by auto
  then show False
  proof cases
    case 1
    with root [OF n2] kb show False by simp
  next
    case 2
    with root [OF n1] kb show False by simp
  next
    case 3
    from registered_key [OF inv 3(1)] registered_key [OF inv 3(2)] kb ne show False by simp
  qed
qed

text \<open>
  Claim C2.  After the insertions and \<^verbatim>\<open>Finish\<close>, two distinct nodes reachable from the root
  never have the same signature.
\<close>

theorem finished_minimal:
  "finished d \<Longrightarrow> \<forall>n1 \<in> reachable d. \<forall>n2 \<in> reachable d.
     n1 \<noteq> n2 \<longrightarrow> key (heap d n1) \<noteq> key (heap d n2)"
  using finished_keys_distinct [OF finished_struct_inv] by blast

theorem finished_minimal_witness:
  "\<exists>d n. build [''a'', ''are''] = Inr d \<and> finished d \<and> 0 \<in> reachable d \<and> n \<in> reachable d \<and>
     0 \<noteq> n \<and> key (heap d 0) \<noteq> key (heap d n)"
proof -
  have "sorted_wrt (<) [''a'', ''are'']" "[] \<notin> set [''a'', ''are'']" by simp_all
  from build_succeeds [OF this] obtain d where
    b: "build [''a'', ''are''] = Inr d" and f: "finished d"
    and acc: "\<forall>w. accept (heap d) 0 w = (w \<in> set [''a'', ''are''])" by blast
  have "''a'' \<in> set [''a'', ''are'']" by simp
  with acc have "accept (heap d) 0 ''a''" by blast
  then obtain n where w: "walk (heap d) 0 ''a'' = Some n" and fn: "F (heap d n)"
    by (auto simp: accept_def split: option.splits)
  from struct_invD(8) [OF finished_struct_inv [OF f]] fn have ne: "0 \<noteq> n"
    by (cases "n = 0") simp_all
  have r0: "0 \<in> reachable d" unfolding reachable_def by (rule CollectI, rule exI [of _ "[]"]) simp
  have rn: "n \<in> reachable d" unfolding reachable_def using w by blast
  from finished_minimal [OF f] r0 rn ne have "key (heap d 0) \<noteq> key (heap d n)" by blast
  with b f r0 rn ne show ?thesis by blast
qed

section \<open>The first loop of \<^verbatim>\<open>Flatten\<close>\<close>

lemma visit_edge_fields:
  "to (visit_edge h nd nk (j, b) s) = to s @ [the (map_of (C (h nd)) b)]"
  "hasChildren (visit_edge h nd nk (j, b) s) =
     hasChildren s @ [C (h (the (map_of (C (h nd)) b))) \<noteq> []]"
  "result (visit_edge h nd nk (j, b) s) =
     result s @ [\<lparr>Index = 0, B = b, AF = F (h (the (map_of (C (h nd)) b))), EOL = (j = nk - 1)\<rparr>]"
  "index (visit_edge h nd nk (j, b) s) = index s + 1"
  "indexes (visit_edge h nd nk (j, b) s) = indexes s"
  "nodes (visit_edge h nd nk (j, b) s) =
     (if seen s (the (map_of (C (h nd)) b)) then nodes s
      else nodes s @ [the (map_of (C (h nd)) b)])"
  "seen (visit_edge h nd nk (j, b) s) =
     (if seen s (the (map_of (C (h nd)) b)) then seen s
      else (seen s)(the (map_of (C (h nd)) b) := True))"
  by (simp_all add: visit_edge_def Let_def)

lemma fold_visit_to:
  "to (fold (visit_edge h nd nk) jbs s) = to s @ map (\<lambda>jb. the (map_of (C (h nd)) (snd jb))) jbs"
proof (induction jbs arbitrary: s)
  case Nil
  show ?case by simp
next
  case (Cons jb jbs)
  obtain j b where jb: "jb = (j, b)" by (cases jb)
  show ?case by (simp add: Cons.IH jb visit_edge_fields)
qed

lemma fold_visit_hasChildren:
  "hasChildren (fold (visit_edge h nd nk) jbs s) =
     hasChildren s @ map (\<lambda>jb. C (h (the (map_of (C (h nd)) (snd jb)))) \<noteq> []) jbs"
proof (induction jbs arbitrary: s)
  case Nil
  show ?case by simp
next
  case (Cons jb jbs)
  obtain j b where jb: "jb = (j, b)" by (cases jb)
  show ?case by (simp add: Cons.IH jb visit_edge_fields)
qed

lemma fold_visit_result:
  "result (fold (visit_edge h nd nk) jbs s) =
     result s @ map (\<lambda>jb. \<lparr>Index = 0, B = snd jb, AF = F (h (the (map_of (C (h nd)) (snd jb)))),
        EOL = (fst jb = nk - 1)\<rparr>) jbs"
proof (induction jbs arbitrary: s)
  case Nil
  show ?case by simp
next
  case (Cons jb jbs)
  obtain j b where jb: "jb = (j, b)" by (cases jb)
  show ?case by (simp add: Cons.IH jb visit_edge_fields)
qed

lemma fold_visit_index:
  "index (fold (visit_edge h nd nk) jbs s) = index s + length jbs"
proof (induction jbs arbitrary: s)
  case Nil
  show ?case by simp
next
  case (Cons jb jbs)
  obtain j b where jb: "jb = (j, b)" by (cases jb)
  show ?case by (simp add: Cons.IH jb visit_edge_fields)
qed

lemma fold_visit_indexes:
  "indexes (fold (visit_edge h nd nk) jbs s) = indexes s"
proof (induction jbs arbitrary: s)
  case Nil
  show ?case by simp
next
  case (Cons jb jbs)
  obtain j b where jb: "jb = (j, b)" by (cases jb)
  show ?case by (simp add: Cons.IH jb visit_edge_fields)
qed

lemma discover_Nil [simp]: "discover q [] = q"
  by (simp add: discover_def)

lemma discover_Cons [simp]:
  "discover q (c # cs) = discover (if c \<in> set q then q else q @ [c]) cs"
  by (simp add: discover_def)

lemma fold_visit_nodes:
  assumes "seen_inv s" and "\<forall>jb \<in> set jbs. the (map_of (C (h nd)) (snd jb)) \<noteq> 0"
  shows "nodes (fold (visit_edge h nd nk) jbs s) =
      discover (nodes s) (map (\<lambda>jb. the (map_of (C (h nd)) (snd jb))) jbs) \<and>
    seen_inv (fold (visit_edge h nd nk) jbs s)"
  using assms
proof (induction jbs arbitrary: s)
  case Nil
  then show ?case by simp
next
  case (Cons jb jbs)
  obtain j b where jb: "jb = (j, b)" by (cases jb)
  let ?c = "the (map_of (C (h nd)) b)"
  let ?s1 = "visit_edge h nd nk (j, b) s"
  from Cons.prems(2) jb have c0: "?c \<noteq> 0" by simp
  with Cons.prems(1) have sc: "seen s ?c = (?c \<in> set (nodes s))" by (simp add: seen_inv_def)
  have n1: "nodes ?s1 = (if ?c \<in> set (nodes s) then nodes s else nodes s @ [?c])"
    by (simp add: visit_edge_fields sc)
  have "seen_inv ?s1"
    unfolding seen_inv_def
  proof (intro allI impI)
    fix c :: nat assume "c \<noteq> 0"
    with Cons.prems(1) have "seen s c = (c \<in> set (nodes s))" by (simp add: seen_inv_def)
    with sc show "seen ?s1 c = (c \<in> set (nodes ?s1))"
      by (auto simp: visit_edge_fields)
  qed
  moreover from Cons.prems(2) have "\<forall>jb \<in> set jbs. the (map_of (C (h nd)) (snd jb)) \<noteq> 0" by simp
  ultimately have "nodes (fold (visit_edge h nd nk) jbs ?s1) =
      discover (nodes ?s1) (map (\<lambda>jb. the (map_of (C (h nd)) (snd jb))) jbs) \<and>
    seen_inv (fold (visit_edge h nd nk) jbs ?s1)" by (rule Cons.IH)
  with n1 jb show ?case by simp
qed

lemma kids_mem:
  assumes "c \<in> set (kids h n)"
  shows "\<exists>b. (b, c) \<in> set (C (h n))"
proof -
  from assms obtain b where b: "b \<in> set (sortedKeys (C (h n)))"
    and c: "c = the (map_of (C (h n)) b)" by (auto simp: kids_def)
  from b have "b \<in> fst ` set (C (h n))" by (simp add: sortedKeys_def)
  then obtain v where "map_of (C (h n)) b = Some v"
    by (metis domD dom_map_of_conv_image_fst)
  with c have "(b, c) \<in> set (C (h n))" by (simp add: map_of_SomeD)
  then show ?thesis by blast
qed

lemma kids_nonzero: "graph_ok h sq \<Longrightarrow> c \<in> set (kids h n) \<Longrightarrow> c \<noteq> 0 \<and> c \<le> sq"
  using kids_mem [of c h n] by (auto simp: graph_ok_def)

lemma map_snd_enumerate_comp: "map (\<lambda>jb. f (snd jb)) (enumerate k xs) = map f xs"
  by (induction xs arbitrary: k) simp_all

lemma flat_invD:
  assumes "flat_inv h i s"
  shows "nodes s = bfs_queue h i" and "i \<le> length (nodes s)" and "seen_inv s"
    and "to s = concat (map (kids h) (take i (nodes s)))"
    and "hasChildren s = map (\<lambda>c. C (h c) \<noteq> []) (to s)"
    and "result s = concat (map (raw_entries h) (take i (nodes s)))"
    and "index s = length (to s)"
    and "\<forall>k < i. indexes s (nodes s ! k) = length (concat (map (kids h) (take k (nodes s))))"
proof -
  from assms have *: "nodes s = bfs_queue h i \<and> i \<le> length (nodes s) \<and> seen_inv s \<and>
      to s = concat (map (kids h) (take i (nodes s))) \<and>
      hasChildren s = map (\<lambda>c. C (h c) \<noteq> []) (to s) \<and>
      result s = concat (map (raw_entries h) (take i (nodes s))) \<and>
      index s = length (to s) \<and>
      (\<forall>k < i. indexes s (nodes s ! k) = length (concat (map (kids h) (take k (nodes s)))))"
    unfolding flat_inv_def .
  from * show "nodes s = bfs_queue h i" by (elim conjE)
  from * show "i \<le> length (nodes s)" by (elim conjE)
  from * show "seen_inv s" by (elim conjE)
  from * show "to s = concat (map (kids h) (take i (nodes s)))" by (elim conjE)
  from * show "hasChildren s = map (\<lambda>c. C (h c) \<noteq> []) (to s)" by (elim conjE)
  from * show "result s = concat (map (raw_entries h) (take i (nodes s)))" by (elim conjE)
  from * show "index s = length (to s)" by (elim conjE)
  from * show "\<forall>k < i. indexes s (nodes s ! k) = length (concat (map (kids h) (take k (nodes s))))"
    by (elim conjE)
qed

lemma visit_fields:
  assumes si: "seen_inv s" and ok: "graph_ok h sq"
  shows "to (visit h nd s) = to s @ kids h nd"
    and "hasChildren (visit h nd s) = hasChildren s @ map (\<lambda>c. C (h c) \<noteq> []) (kids h nd)"
    and "result (visit h nd s) = result s @ raw_entries h nd"
    and "index (visit h nd s) = index s + length (kids h nd)"
    and "indexes (visit h nd s) = (indexes s)(nd := index s)"
    and "nodes (visit h nd s) = discover (nodes s) (kids h nd)"
    and "seen_inv (visit h nd s)"
proof -
  let ?keys = "sortedKeys (C (h nd))"
  let ?s0 = "s\<lparr>indexes := (indexes s)(nd := index s)\<rparr>"
  have v: "visit h nd s = fold (visit_edge h nd (length ?keys)) (enumerate 0 ?keys) ?s0"
    by (simp add: visit_def Let_def)
  have k: "map (\<lambda>jb. the (map_of (C (h nd)) (snd jb))) (enumerate 0 ?keys) = kids h nd"
    unfolding kids_def by (rule map_snd_enumerate_comp)
  show "to (visit h nd s) = to s @ kids h nd"
    by (simp only: v fold_visit_to k) simp
  have "map (\<lambda>jb. C (h (the (map_of (C (h nd)) (snd jb)))) \<noteq> []) (enumerate 0 ?keys)
      = map (\<lambda>b. C (h (the (map_of (C (h nd)) b))) \<noteq> []) ?keys"
    by (rule map_snd_enumerate_comp)
  also have "\<dots> = map (\<lambda>c. C (h c) \<noteq> []) (kids h nd)"
    by (simp add: kids_def comp_def)
  finally show "hasChildren (visit h nd s) = hasChildren s @ map (\<lambda>c. C (h c) \<noteq> []) (kids h nd)"
    by (simp only: v fold_visit_hasChildren) simp
  have "map (\<lambda>jb. \<lparr>Index = 0, B = snd jb, AF = F (h (the (map_of (C (h nd)) (snd jb)))),
        EOL = (fst jb = length ?keys - 1)\<rparr>) (enumerate 0 ?keys) = raw_entries h nd"
    unfolding raw_entries_def raw_entry_def by (rule map_cong) auto
  then show "result (visit h nd s) = result s @ raw_entries h nd"
    by (simp only: v fold_visit_result) simp
  show "index (visit h nd s) = index s + length (kids h nd)"
    by (simp add: v fold_visit_index kids_def)
  show "indexes (visit h nd s) = (indexes s)(nd := index s)"
    by (simp add: v fold_visit_indexes)
  from si have si0: "seen_inv ?s0" by (simp add: seen_inv_def)
  have nz: "\<forall>jb \<in> set (enumerate 0 ?keys). the (map_of (C (h nd)) (snd jb)) \<noteq> 0"
  proof
    fix jb assume "jb \<in> set (enumerate 0 ?keys)"
    then have "fst jb < length ?keys" and "?keys ! fst jb = snd jb"
      by (simp_all add: in_set_enumerate_eq)
    then have "snd jb \<in> set ?keys" using nth_mem [of "fst jb" ?keys] by simp
    then have "the (map_of (C (h nd)) (snd jb)) \<in> set (kids h nd)" by (simp add: kids_def)
    from kids_nonzero [OF ok this] show "the (map_of (C (h nd)) (snd jb)) \<noteq> 0" by simp
  qed
  from fold_visit_nodes [of ?s0 "enumerate 0 ?keys" h nd "length ?keys", OF si0 nz] k
  show "nodes (visit h nd s) = discover (nodes s) (kids h nd)" and "seen_inv (visit h nd s)"
    by (simp_all add: v)
qed

lemma discover_append: "\<exists>ys. discover q cs = q @ ys"
proof (induction cs arbitrary: q)
  case Nil
  show ?case by simp
next
  case (Cons c cs)
  from Cons.IH [of "if c \<in> set q then q else q @ [c]"] show ?case by (auto split: if_splits)
qed

lemma discover_distinct: "distinct q \<Longrightarrow> distinct (discover q cs)"
  by (induction cs arbitrary: q) auto

lemma discover_set: "set (discover q cs) = set q \<union> set cs"
  by (induction cs arbitrary: q) auto

lemma discover_length: "length q \<le> length (discover q cs)"
  using discover_append [of q cs] by auto

lemma discover_take: "k \<le> length q \<Longrightarrow> take k (discover q cs) = take k q"
  using discover_append [of q cs] by auto

lemma discover_nth: "k < length q \<Longrightarrow> discover q cs ! k = q ! k"
  using discover_append [of q cs] by (auto simp: nth_append)

lemma bfs_queue_distinct: "distinct (bfs_queue h i)"
  by (induction i) (simp_all add: Let_def discover_distinct)

lemma bfs_queue_bounded:
  assumes "graph_ok h sq"
  shows "\<forall>n \<in> set (bfs_queue h i). n \<le> sq"
proof (induction i)
  case 0
  show ?case by simp
next
  case (Suc i)
  show ?case
  proof (cases "i < length (bfs_queue h i)")
    case True
    then have "set (bfs_queue h (Suc i)) = set (bfs_queue h i) \<union> set (kids h (bfs_queue h i ! i))"
      by (simp add: Let_def discover_set)
    with Suc kids_nonzero [OF assms] show ?thesis by auto
  next
    case False
    with Suc show ?thesis by (simp add: Let_def)
  qed
qed

lemma bfs_queue_length:
  assumes "graph_ok h sq"
  shows "length (bfs_queue h i) \<le> Suc sq"
proof -
  from bfs_queue_bounded [OF assms, of i] have "set (bfs_queue h i) \<subseteq> {..sq}" by auto
  then have "card (set (bfs_queue h i)) \<le> card {..sq}" by (intro card_mono) simp_all
  with bfs_queue_distinct [of h i] show ?thesis by (simp add: distinct_card)
qed

lemma flat_inv_step:
  assumes ok: "graph_ok h sq" and inv: "flat_inv h i s" and lt: "i < length (nodes s)"
  shows "flat_inv h (Suc i) (visit h (nodes s ! i) s)"
proof -
  let ?q = "nodes s" and ?nd = "nodes s ! i"
  let ?s' = "visit h ?nd s"
  note D = flat_invD [OF inv]
  note q = D(1) and si = D(3) and t = D(4) and hc = D(5) and r = D(6) and ix = D(7)
    and ixs = D(8)
  note V = visit_fields [OF si ok, of ?nd]
  have dq: "distinct ?q" using q bfs_queue_distinct by simp
  have n': "nodes ?s' = discover ?q (kids h ?nd)" by (rule V(6))
  have q': "nodes ?s' = bfs_queue h (Suc i)" using n' q lt by (simp add: Let_def)
  have len: "Suc i \<le> length (nodes ?s')" using lt discover_length [of ?q "kids h ?nd"] n' by simp
  have tk: "take k (nodes ?s') = take k ?q" if "k \<le> length ?q" for k
    using discover_take [OF that] n' by simp
  have nth: "nodes ?s' ! k = ?q ! k" if "k < length ?q" for k
    using discover_nth [OF that] n' by simp
  have tS: "take (Suc i) (nodes ?s') = take i ?q @ [?nd]"
    using tk [of "Suc i"] lt by (simp add: take_Suc_conv_app_nth)
  have t': "to ?s' = concat (map (kids h) (take (Suc i) (nodes ?s')))"
    by (simp add: V(1) t tS)
  have hc': "hasChildren ?s' = map (\<lambda>c. C (h c) \<noteq> []) (to ?s')"
    by (simp add: V(1) V(2) hc)
  have r': "result ?s' = concat (map (raw_entries h) (take (Suc i) (nodes ?s')))"
    by (simp add: V(3) r tS)
  have ix': "index ?s' = length (to ?s')" by (simp add: V(1) V(4) ix)
  have ixs': "\<forall>k < Suc i. indexes ?s' (nodes ?s' ! k)
      = length (concat (map (kids h) (take k (nodes ?s'))))"
  proof (intro allI impI)
    fix k assume k: "k < Suc i"
    with lt have kl: "k < length ?q" by simp
    then have kle: "k \<le> length ?q" by simp
    have a: "nodes ?s' ! k = ?q ! k" by (rule nth [OF kl])
    have b: "take k (nodes ?s') = take k ?q" by (rule tk [OF kle])
    show "indexes ?s' (nodes ?s' ! k) = length (concat (map (kids h) (take k (nodes ?s'))))"
      unfolding a b V(5)
    proof (cases "k = i")
      case True
      with ix t show "((indexes s)(?nd := index s)) (?q ! k)
          = length (concat (map (kids h) (take k ?q)))" by simp
    next
      case False
      with k have ki: "k < i" by simp
      from dq kl lt False have "?q ! k \<noteq> ?q ! i" by (simp add: nth_eq_iff_index_eq)
      with ixs ki show "((indexes s)(?nd := index s)) (?q ! k)
          = length (concat (map (kids h) (take k ?q)))" by simp
    qed
  qed
  from q' len V(7) t' hc' r' ix' ixs' show ?thesis unfolding flat_inv_def by blast
qed

lemma flatten_loop_inv:
  assumes ok: "graph_ok h sq"
  shows "flat_inv h i s \<Longrightarrow>
    \<exists>s'. flatten_loop h i s = Some s' \<and> flat_inv h (length (nodes s')) s'"
proof (induction k \<equiv> "Suc sq - i" arbitrary: i s)
  case 0
  note q = flat_invD(1) [OF 0(2)] and le = flat_invD(2) [OF 0(2)]
  from bfs_queue_length [OF ok, of i] q 0(1) le have "i = length (nodes s)" by simp
  with 0(2) show ?case by (subst flatten_loop.simps) simp
next
  case (Suc k)
  show ?case
  proof (cases "i < length (nodes s)")
    case True
    from flat_inv_step [OF ok Suc.prems True]
    have inv': "flat_inv h (Suc i) (visit h (nodes s ! i) s)" .
    from Suc.hyps(2) have "k = Suc sq - Suc i" by simp
    from Suc.hyps(1) [OF this inv'] obtain s' where
      "flatten_loop h (Suc i) (visit h (nodes s ! i) s) = Some s'"
      "flat_inv h (length (nodes s')) s'" by blast
    with True show ?thesis by (subst flatten_loop.simps) simp
  next
    case False
    from flat_invD(2) [OF Suc.prems] False have "i = length (nodes s)" by simp
    with Suc.prems show ?thesis by (subst flatten_loop.simps) simp
  qed
qed

lemma flat_inv_init: "flat_inv h 0 flat_init"
  by (simp add: flat_inv_def flat_init_def seen_inv_def)

end
